theory Spec2Isabelle
  imports Main "HOL-Library.Word" "HOL-Library.List_Lexorder"
begin

section \<open>JavaScript strings\<close>

text \<open>
  A JavaScript string is a sequence of UTF-16 code units. The comparisons of the source
  (\<^verbatim>\<open>===\<close>, \<^verbatim>\<open><\<close>, the regular expressions without the \<^verbatim>\<open>u\<close> flag)
  all work on code units, so a string is a list of 16-bit words; \<open><\<close> on such lists is
  the lexicographic order of \<^verbatim>\<open>HOL-Library.List_Lexorder\<close>, which is how
  JavaScript compares two strings. \<open>js\<close> turns an ASCII literal into such a string.
\<close>

type_synonym jschar = "16 word"
type_synonym jsstring = "jschar list"

definition js :: "string \<Rightarrow> jsstring" where
  "js s = map of_char s"

definition slashChar :: jschar where "slashChar = 0x2F"
definition colonChar :: jschar where "colonChar = 0x3A"
definition starChar :: jschar where "starChar = 0x2A"

text \<open>
  The line terminators of ECMAScript: the code units that \<^verbatim>\<open>.\<close> in a regular
  expression does not match (LF, CR, U+2028, U+2029).
\<close>

definition isLineTerminator :: "jschar \<Rightarrow> bool" where
  "isLineTerminator c = (c = 0x0A \<or> c = 0x0D \<or> c = 0x2028 \<or> c = 0x2029)"

text \<open>\<^verbatim>\<open>String.prototype.split\<close> with a one-character separator: \<^verbatim>\<open>"".split("/")\<close> is \<^verbatim>\<open>[""]\<close>.\<close>

fun split :: "jschar \<Rightarrow> jsstring \<Rightarrow> jsstring list" where
  "split sep [] = [[]]"
| "split sep (c # cs) =
     (if c = sep then [] # split sep cs
      else (case split sep cs of
              [] \<Rightarrow> [[c]]
            | s # ss \<Rightarrow> (c # s) # ss))"

text \<open>\<^verbatim>\<open>Array.prototype.join\<close>.\<close>

fun join :: "jsstring \<Rightarrow> jsstring list \<Rightarrow> jsstring" where
  "join sep [] = []"
| "join sep [s] = s"
| "join sep (s # t # ss) = s @ sep @ join sep (t # ss)"

section \<open>Route ranking\<close>

definition SEGMENT_POINTS :: int where "SEGMENT_POINTS = 4"
definition STATIC_POINTS :: int where "STATIC_POINTS = 3"
definition DYNAMIC_POINTS :: int where "DYNAMIC_POINTS = 2"
definition SPLAT_PENALTY :: int where "SPLAT_PENALTY = 1"
definition ROOT_POINTS :: int where "ROOT_POINTS = 1"

definition isRootSegment :: "jsstring \<Rightarrow> bool" where
  "isRootSegment segment = (segment = [])"

text \<open>
  \<^verbatim>\<open>paramRe = /^:(.+)/\<close>: a colon at the start, then at least one code unit that
  \<^verbatim>\<open>.\<close> matches. The expression is anchored, so the code unit right after the colon
  decides.
\<close>

fun isDynamic :: "jsstring \<Rightarrow> bool" where
  "isDynamic (c # d # rest) = (c = colonChar \<and> \<not> isLineTerminator d)"
| "isDynamic _ = False"

definition isSplat :: "jsstring \<Rightarrow> bool" where
  "isSplat segment = (segment = [starChar])"

text \<open>
  \<^verbatim>\<open>uri.replace(/(^\/+|\/+$)/g, ``)\<close> removes the run of slashes at the start and the run at
  the end.
\<close>

definition stripSlashes :: "jsstring \<Rightarrow> jsstring" where
  "stripSlashes uri =
     rev (dropWhile (\<lambda>c. c = slashChar) (rev (dropWhile (\<lambda>c. c = slashChar) uri)))"

definition segmentize :: "jsstring \<Rightarrow> jsstring list" where
  "segmentize uri = split slashChar (stripSlashes uri)"

text \<open>The callback of \<^verbatim>\<open>reduce\<close> in \<^verbatim>\<open>rankRoute\<close>.\<close>

definition rankStep :: "int \<Rightarrow> jsstring \<Rightarrow> int" where
  "rankStep score segment =
     (let score = score + SEGMENT_POINTS in
      if isRootSegment segment then score + ROOT_POINTS
      else if isDynamic segment then score + DYNAMIC_POINTS
      else if isSplat segment then score - (SEGMENT_POINTS + SPLAT_PENALTY)
      else score + STATIC_POINTS)"

definition rankRoute :: "jsstring \<Rightarrow> int" where
  "rankRoute path = foldl rankStep 0 (segmentize path)"

subsection \<open>The score as the specification words it\<close>

text \<open>
  The specification's rule for one segment: 4, plus 1 for the empty segment, else plus 2
  for a colon followed by at least one character, else minus 5 for \<^verbatim>\<open>*\<close>, else
  plus 3.
\<close>

definition specIsParam :: "jsstring \<Rightarrow> bool" where
  "specIsParam segment = (case segment of c # d # rest \<Rightarrow> c = colonChar | _ \<Rightarrow> False)"

definition specSegmentScore :: "jsstring \<Rightarrow> int" where
  "specSegmentScore segment =
     4 + (if segment = [] then 1
          else if specIsParam segment then 2
          else if segment = [starChar] then - 5
          else 3)"

definition specScore :: "jsstring \<Rightarrow> int" where
  "specScore path = sum_list (map specSegmentScore (segmentize path))"

text \<open>The same rule with the parameter grammar of the code.\<close>

definition segmentScore :: "jsstring \<Rightarrow> int" where
  "segmentScore segment =
     4 + (if segment = [] then 1
          else if isDynamic segment then 2
          else if segment = [starChar] then - 5
          else 3)"

section \<open>Pages, components and match paths\<close>

text \<open>
  \<^verbatim>\<open>IGatsbyPageComponent\<close> is the pair of fields that \<^verbatim>\<open>_.pick\<close> keeps. A page
  (\<^verbatim>\<open>IGatsbyPage\<close>) has these two fields, its \<^verbatim>\<open>path\<close> and an optional
  \<^verbatim>\<open>matchPath\<close>; this module reads no other field of a page, and whatever else a page
  carries (what \<^verbatim>\<open>getPageMode\<close> looks at) is kept in \<open>otherFields\<close>.
\<close>

record IGatsbyPageComponent =
  component :: jsstring
  componentChunkName :: jsstring

record 'r IGatsbyPage = IGatsbyPageComponent +
  path :: jsstring
  matchPath :: "jsstring option"
  otherFields :: 'r

text \<open>\<^verbatim>\<open>IGatsbyPageMatchPath\<close>, the element of the result of \<^verbatim>\<open>getMatchPaths\<close>.\<close>

record IGatsbyPageMatchPath =
  mp_path :: jsstring
  mp_matchPath :: "jsstring option"

text \<open>
  \<^verbatim>\<open>IMatchPathEntry\<close> is \<^verbatim>\<open>{ ...page, matchPath, index, score }\<close>: the page that is
  spread, the \<^verbatim>\<open>matchPath\<close> that overrides the page's own and is a string, the index
  and the score.
\<close>

record 'r IMatchPathEntry =
  spread :: "'r IGatsbyPage"
  entryMatchPath :: jsstring
  index :: nat
  score :: int

datatype PageMode = SSG | DSG | SSR

datatype error = Panic jsstring | IOError jsstring

text \<open>
  What the module takes from outside: the compile flag, the two environment variables,
  and the functions it imports from other modules and libraries. \<open>match\<close> is the
  truth value of the result of the router's \<^verbatim>\<open>match(pattern, uri)\<close>;
  \<open>JSON_stringify\<close> serialises the object
  \<^verbatim>\<open>{ matchPaths, components, cleanedSSRVisitedPageComponents }\<close> and
  \<open>JSON_stringify_pretty\<close> is \<^verbatim>\<open>JSON.stringify(matchPaths, null, 4)\<close>;
  \<open>Date_now\<close> is the clock reading, as text, used for the temporary name of a
  destination; \<open>writeFileFails\<close> and \<open>moveFails\<close> say which operations of the file system
  are rejected.
\<close>

record 'r env =
  GATSBY_MAJOR :: jsstring
  GATSBY_EXPERIMENTAL_DEV_SSR :: "jsstring option"
  gatsby_executing_command :: "jsstring option"
  getPageMode :: "'r IGatsbyPage \<Rightarrow> PageMode"
  match :: "jsstring \<Rightarrow> jsstring \<Rightarrow> bool"
  localeCompare :: "jsstring \<Rightarrow> jsstring \<Rightarrow> int"
  md5 :: "jsstring \<Rightarrow> jsstring"
  JSON_stringify ::
    "IGatsbyPageMatchPath list \<Rightarrow> IGatsbyPageComponent list \<Rightarrow> IGatsbyPageComponent list
      \<Rightarrow> jsstring"
  JSON_stringify_pretty :: "IGatsbyPageMatchPath list \<Rightarrow> jsstring"
  joinPath :: "jsstring list \<Rightarrow> jsstring"
  relative :: "jsstring \<Rightarrow> jsstring \<Rightarrow> jsstring"
  slash :: "jsstring \<Rightarrow> jsstring"
  getAbsolutePathForVirtualModule :: "jsstring \<Rightarrow> jsstring"
  Date_now :: "jsstring \<Rightarrow> jsstring"
  writeFileFails :: "jsstring \<Rightarrow> bool"
  moveFails :: "jsstring \<Rightarrow> jsstring \<Rightarrow> bool"

text \<open>Truthiness of a value of type \<^verbatim>\<open>string | undefined\<close>.\<close>

definition truthy :: "jsstring option \<Rightarrow> bool" where
  "truthy v = (case v of None \<Rightarrow> False | Some s \<Rightarrow> s \<noteq> [])"

subsection \<open>getComponents\<close>

definition pickComponentFields :: "'r IGatsbyPage \<Rightarrow> IGatsbyPageComponent" where
  "pickComponentFields p =
     \<lparr>component = component p, componentChunkName = componentChunkName p\<rparr>"

text \<open>
  \<^verbatim>\<open>_.uniqBy\<close>: the array is walked from the left with the keys seen so far, and an
  element is kept when its key has not been seen.
\<close>

fun baseUniq :: "('a \<Rightarrow> 'k) \<Rightarrow> 'k list \<Rightarrow> 'a list \<Rightarrow> 'a list" where
  "baseUniq iteratee seen [] = []"
| "baseUniq iteratee seen (x # xs) =
     (if iteratee x \<in> set seen then baseUniq iteratee seen xs
      else x # baseUniq iteratee (iteratee x # seen) xs)"

definition uniqBy :: "'a list \<Rightarrow> ('a \<Rightarrow> 'k) \<Rightarrow> 'a list" where
  "uniqBy array iteratee = baseUniq iteratee [] array"

text \<open>
  \<^verbatim>\<open>_.orderBy\<close> with one iteratee and the default order: a stable sort, ascending in
  the key, which for strings is compared with \<^verbatim>\<open><\<close>.
\<close>

definition orderBy :: "'a list \<Rightarrow> ('a \<Rightarrow> 'k::linorder) \<Rightarrow> 'a list" where
  "orderBy collection iteratee = sort_key iteratee collection"

definition getComponents :: "'r IGatsbyPage list \<Rightarrow> IGatsbyPageComponent list" where
  "getComponents ps =
     orderBy (uniqBy (map pickComponentFields ps) componentChunkName) componentChunkName"

subsection \<open>getMatchPaths\<close>

definition createMatchPathEntry :: "'r IGatsbyPage \<Rightarrow> nat \<Rightarrow> error + 'r IMatchPathEntry" where
  "createMatchPathEntry p i =
     (case matchPath p of
        None \<Rightarrow>
          Inl (Panic (js ''Error: matchPath property is undefined for page '' @ path p
                       @ js '', should be a string''))
      | Some m \<Rightarrow>
          Inr \<lparr>spread = p, entryMatchPath = m, index = i, score = rankRoute m\<rparr>)"

text \<open>
  \<^verbatim>\<open>array.push(createMatchPathEntry(...))\<close>: the argument is evaluated first, and a
  panic there leaves the loop.
\<close>

definition push :: "'b list \<Rightarrow> error + 'b \<Rightarrow> error + 'b list" where
  "push array r = (case r of Inl e \<Rightarrow> Inl e | Inr x \<Rightarrow> Inr (array @ [x]))"

text \<open>
  \<^verbatim>\<open>pages.forEach((page, index) => ...)\<close> with a callback that pushes to an array:
  the callback gets the element, its index and the array so far.
\<close>

fun forEach ::
  "('a \<Rightarrow> nat \<Rightarrow> 'b list \<Rightarrow> error + 'b list) \<Rightarrow> 'a list \<Rightarrow> nat \<Rightarrow> 'b list \<Rightarrow> error + 'b list"
where
  "forEach callback [] i array = Inr array"
| "forEach callback (x # xs) i array =
     (case callback x i array of
        Inl e \<Rightarrow> Inl e
      | Inr array' \<Rightarrow> forEach callback xs (Suc i) array')"

text \<open>The callback of the first loop (lines 111 to 121).\<close>

definition collectMatchPathPage ::
  "'r env \<Rightarrow> 'r IGatsbyPage \<Rightarrow> nat \<Rightarrow> 'r IMatchPathEntry list \<Rightarrow> error + 'r IMatchPathEntry list"
where
  "collectMatchPathPage e p i matchPathPages =
     (if GATSBY_MAJOR e = js ''4'' then
        (if truthy (matchPath p) \<and> getPageMode e p = SSG
         then push matchPathPages (createMatchPathEntry p i)
         else Inr matchPathPages)
      else
        (if truthy (matchPath p)
         then push matchPathPages (createMatchPathEntry p i)
         else Inr matchPathPages))"

text \<open>The callback of the second loop (lines 131 to 148).\<close>

definition collectNewMatch ::
  "'r env \<Rightarrow> 'r IMatchPathEntry list \<Rightarrow> 'r IGatsbyPage \<Rightarrow> nat \<Rightarrow> 'r IMatchPathEntry list
    \<Rightarrow> error + 'r IMatchPathEntry list"
where
  "collectNewMatch e matchPathPages p i newMatches =
     (let isInsideMatchPath =
            (find (\<lambda>pageWithMatchPath.
                     \<not> truthy (matchPath p)
                     \<and> match e (entryMatchPath pageWithMatchPath) (path p))
               matchPathPages \<noteq> None)
      in if isInsideMatchPath
         then push newMatches (createMatchPathEntry (p\<lparr>matchPath := Some (path p)\<rparr>) i)
         else Inr newMatches)"

text \<open>The comparator handed to \<^verbatim>\<open>sort\<close> (lines 154 to 164).\<close>

definition compareEntries :: "'r env \<Rightarrow> 'r IMatchPathEntry \<Rightarrow> 'r IMatchPathEntry \<Rightarrow> int" where
  "compareEntries e a b =
     (let order = score b - score a in
      if order \<noteq> 0 then order
      else localeCompare e (entryMatchPath a) (entryMatchPath b))"

text \<open>
  \<^verbatim>\<open>Array.prototype.sort\<close> with a comparator is a stable sort: an element stays in front
  of the later elements that the comparator does not put before it. It is modelled as
  the stable insertion sort; for a comparator that is a total preorder every stable
  sort gives this result.
\<close>

fun insertSorted :: "('a \<Rightarrow> 'a \<Rightarrow> int) \<Rightarrow> 'a \<Rightarrow> 'a list \<Rightarrow> 'a list" where
  "insertSorted cmp x [] = [x]"
| "insertSorted cmp x (y # ys) =
     (if cmp x y \<le> 0 then x # y # ys else y # insertSorted cmp x ys)"

definition sortWith :: "('a \<Rightarrow> 'a \<Rightarrow> int) \<Rightarrow> 'a list \<Rightarrow> 'a list" where
  "sortWith cmp xs = foldr (insertSorted cmp) xs []"

definition toMatchPath :: "'r IMatchPathEntry \<Rightarrow> IGatsbyPageMatchPath" where
  "toMatchPath a = \<lparr>mp_path = path (spread a), mp_matchPath = Some (entryMatchPath a)\<rparr>"

text \<open>\<^verbatim>\<open>matchPathPages\<close> after the first loop.\<close>

definition explicitMatchPathPages :: "'r env \<Rightarrow> 'r IGatsbyPage list \<Rightarrow> error + 'r IMatchPathEntry list"
where
  "explicitMatchPathPages e ps = forEach (collectMatchPathPage e) ps 0 []"

text \<open>\<^verbatim>\<open>matchPathPages\<close> when the sort is reached (after line 151).\<close>

definition allMatchPathPages :: "'r env \<Rightarrow> 'r IGatsbyPage list \<Rightarrow> error + 'r IMatchPathEntry list"
where
  "allMatchPathPages e ps =
     (case explicitMatchPathPages e ps of
        Inl err \<Rightarrow> Inl err
      | Inr matchPathPages \<Rightarrow>
          if matchPathPages \<noteq> [] then
            (case forEach (collectNewMatch e matchPathPages) ps 0 [] of
               Inl err \<Rightarrow> Inl err
             | Inr newMatches \<Rightarrow> Inr (matchPathPages @ newMatches))
          else Inr matchPathPages)"

definition getMatchPaths :: "'r env \<Rightarrow> 'r IGatsbyPage list \<Rightarrow> error + IGatsbyPageMatchPath list"
where
  "getMatchPaths e ps =
     (case allMatchPathPages e ps of
        Inl err \<Rightarrow> Inl err
      | Inr matchPathPages \<Rightarrow>
          Inr (map toMatchPath (sortWith (compareEntries e) matchPathPages)))"

section \<open>Hashing and writing\<close>

definition createHash ::
  "'r env \<Rightarrow> IGatsbyPageMatchPath list \<Rightarrow> IGatsbyPageComponent list
    \<Rightarrow> IGatsbyPageComponent list \<Rightarrow> jsstring"
where
  "createHash e mps cs cleaned = md5 e (JSON_stringify e mps cs cleaned)"

text \<open>
  The part of \<^verbatim>\<open>IGatsbyState\<close> that \<^verbatim>\<open>writeAll\<close> reads: \<^verbatim>\<open>program.directory\<close>,
  the values of the map \<^verbatim>\<open>pages\<close> in its order, and the map \<^verbatim>\<open>visitedPages\<close>
  from a name to a set of chunk names.
\<close>

record 'r IGatsbyState =
  programDirectory :: jsstring
  pages :: "'r IGatsbyPage list"
  visitedPages :: "(jsstring \<times> jsstring list) list"

text \<open>
  What \<^verbatim>\<open>writeAll\<close> changes: the module variable \<^verbatim>\<open>lastHash\<close>, and the outside
  world, kept as the trace of the operations that were carried out.
\<close>

datatype effect =
    WriteModule jsstring jsstring
  | WriteFile jsstring jsstring
  | Move jsstring jsstring
  | DevSSRWillInvalidate

record world =
  lastHash :: "jsstring option"
  effects :: "effect list"

definition emit :: "effect \<Rightarrow> world \<Rightarrow> world" where
  "emit ev w = w\<lparr>effects := effects w @ [ev]\<rparr>"

definition resetLastHash :: "world \<Rightarrow> world" where
  "resetLastHash w = w\<lparr>lastHash := None\<rparr>"

text \<open>
  \<^verbatim>\<open>[...(state.visitedPages.get(`server`)?.values() || [])]\<close>
\<close>

definition ssrVisitedPageComponents :: "'r IGatsbyState \<Rightarrow> jsstring list" where
  "ssrVisitedPageComponents st =
     (case map_of (visitedPages st) (js ''server'') of None \<Rightarrow> [] | Some names \<Rightarrow> names)"

text \<open>The value of \<^verbatim>\<open>cleanedSSRVisitedPageComponents\<close> at line 205.\<close>

definition cleanedSSRVisitedPageComponents ::
  "'r env \<Rightarrow> 'r IGatsbyState \<Rightarrow> IGatsbyPageComponent list \<Rightarrow> IGatsbyPageComponent list"
where
  "cleanedSSRVisitedPageComponents e st cs =
     (if truthy (GATSBY_EXPERIMENTAL_DEV_SSR e)
      then filter (\<lambda>c. list_ex (\<lambda>s. s = componentChunkName c) (ssrVisitedPageComponents st)) cs
      else [])"

subsection \<open>The text of the modules\<close>

definition lazySyncRequires :: "'r env \<Rightarrow> IGatsbyPageComponent list \<Rightarrow> jsstring" where
  \<open>lazySyncRequires e cleaned =
     js ''exports.ssrComponents = {\<newline>''
     @ join (js '',\<newline>'')
         (map (\<lambda>c. js ''  "'' @ componentChunkName c @ js ''": require("''
                    @ joinPath e [component c] @ js ''")'') cleaned)
     @ js ''\<newline>  }\<newline>\<newline>''\<close>

definition syncRequires :: "'r env \<Rightarrow> IGatsbyPageComponent list \<Rightarrow> jsstring" where
  \<open>syncRequires e cs =
     js ''\<newline>// prefer default export if available\<newline>''
     @ js ''const preferDefault = m => (m && m.default) || m\<newline>\<newline>\<newline>''
     @ js ''exports.components = {\<newline>''
     @ join (js '',\<newline>'')
         (map (\<lambda>c. js ''  "'' @ componentChunkName c @ js ''": preferDefault(require("''
                    @ joinPath e [component c] @ js ''"))'') cs)
     @ js ''\<newline>}\<newline>\<newline>''\<close>

definition relativeComponentPath :: "'r env \<Rightarrow> IGatsbyPageComponent \<Rightarrow> jsstring" where
  "relativeComponentPath e c =
     relative e (getAbsolutePathForVirtualModule e (js ''$virtual'')) (component c)"

definition asyncImport :: "'r env \<Rightarrow> jsstring \<Rightarrow> jsstring \<Rightarrow> IGatsbyPageComponent \<Rightarrow> jsstring" where
  \<open>asyncImport e query suffix c =
     js ''  "'' @ componentChunkName c @ js ''": () => import("''
     @ slash e (js ''./'' @ relativeComponentPath e c) @ query
     @ js ''" /* webpackChunkName: "'' @ componentChunkName c @ suffix @ js ''" */)''\<close>

definition asyncRequires :: "'r env \<Rightarrow> IGatsbyPageComponent list \<Rightarrow> jsstring" where
  "asyncRequires e cs =
     (if gatsby_executing_command e = Some (js ''develop'') then
        js ''exports.components = {\<newline>''
        @ join (js '',\<newline>'') (map (asyncImport e (js ''?export=default'') []) cs)
        @ js ''\<newline>}\<newline>\<newline>\<newline>\<newline>exports.head = {\<newline>''
        @ join (js '',\<newline>'') (map (asyncImport e (js ''?export=head'') (js ''head'')) cs)
        @ js ''\<newline>}\<newline>\<newline>''
      else
        js ''exports.components = {\<newline>''
        @ join (js '',\<newline>'') (map (asyncImport e [] []) cs)
        @ js ''\<newline>}\<newline>\<newline>'')"

subsection \<open>writeAndMove and writeAll\<close>

text \<open>
  \<^verbatim>\<open>writeAndMove\<close> writes the virtual module at once and returns a promise for the
  chain \<^verbatim>\<open>fs.writeFile(tmp, data).then(() => fs.move(tmp, destination))\<close>. The
  promise is the triple of the temporary name, the destination and the data;
  \<open>settle\<close> runs the chain, which is rejected at its first operation that fails.
\<close>

type_synonym pending = "jsstring \<times> jsstring \<times> jsstring"

definition writeAndMove ::
  "'r env \<Rightarrow> jsstring \<Rightarrow> jsstring \<Rightarrow> jsstring \<Rightarrow> jsstring \<Rightarrow> world \<Rightarrow> pending \<times> world"
where
  "writeAndMove e dir virtualFilePath file d w =
     (let w' = emit (WriteModule virtualFilePath d) w;
          destination = joinPath e [dir, js ''.cache'', file];
          tmp = destination @ js ''.'' @ Date_now e destination
      in ((tmp, destination, d), w'))"

definition settle :: "'r env \<Rightarrow> pending \<Rightarrow> world \<Rightarrow> (error + unit) \<times> world" where
  "settle e pr w =
     (case pr of (tmp, destination, d) \<Rightarrow>
        if writeFileFails e tmp then (Inl (IOError tmp), w)
        else
          (let w' = emit (WriteFile tmp d) w in
           if moveFails e tmp destination then (Inl (IOError destination), w')
           else (Inr (), emit (Move tmp destination) w')))"

text \<open>
  \<^verbatim>\<open>await Promise.all([...])\<close>: every chain runs to its end, and the whole is rejected
  when one of them is (here with the first rejection in the order of the array). The
  chains write different files; they are run one after the other.
\<close>

fun promiseAll :: "'r env \<Rightarrow> pending list \<Rightarrow> world \<Rightarrow> (error + unit) \<times> world" where
  "promiseAll e [] w = (Inr (), w)"
| "promiseAll e (pr # prs) w =
     (case settle e pr w of
        (r, w') \<Rightarrow>
          (case promiseAll e prs w' of
             (rs, w'') \<Rightarrow> ((case r of Inl err \<Rightarrow> Inl err | Inr u \<Rightarrow> rs), w'')))"

text \<open>The statements of \<^verbatim>\<open>writeAll\<close> after \<^verbatim>\<open>lastHash = newHash\<close> (lines 218 to 330).\<close>

definition writeFiles ::
  "'r env \<Rightarrow> 'r IGatsbyState \<Rightarrow> IGatsbyPageMatchPath list \<Rightarrow> IGatsbyPageComponent list
    \<Rightarrow> IGatsbyPageComponent list \<Rightarrow> world \<Rightarrow> (error + bool) \<times> world"
where
  "writeFiles e st mps cs cleaned w =
     (let w1 = (if truthy (GATSBY_EXPERIMENTAL_DEV_SSR e)
                then emit DevSSRWillInvalidate
                       (emit (WriteModule (js ''$virtual/ssr-sync-requires'')
                                (lazySyncRequires e cleaned)) w)
                else w);
          (p1, w2) = writeAndMove e (programDirectory st) (js ''$virtual/sync-requires.js'')
                       (js ''sync-requires.js'') (syncRequires e cs) w1;
          (p2, w3) = writeAndMove e (programDirectory st) (js ''$virtual/async-requires.js'')
                       (js ''async-requires.js'') (asyncRequires e cs) w2;
          (p3, w4) = writeAndMove e (programDirectory st) (js ''$virtual/match-paths.json'')
                       (js ''match-paths.json'') (JSON_stringify_pretty e mps) w3
      in (case promiseAll e [p1, p2, p3] w4 of
            (Inl err, w5) \<Rightarrow> (Inl err, w5)
          | (Inr u, w5) \<Rightarrow> (Inr True, w5)))"

text \<open>The hash that \<^verbatim>\<open>writeAll\<close> computes for a state (lines 190 to 209).\<close>

definition newHash :: "'r env \<Rightarrow> 'r IGatsbyState \<Rightarrow> error + jsstring" where
  "newHash e st =
     (case getMatchPaths e (pages st) of
        Inl err \<Rightarrow> Inl err
      | Inr mps \<Rightarrow>
          (let cs = getComponents (pages st);
               cleaned = cleanedSSRVisitedPageComponents e st cs
           in Inr (createHash e mps cs cleaned)))"

definition writeAll :: "'r env \<Rightarrow> 'r IGatsbyState \<Rightarrow> world \<Rightarrow> (error + bool) \<times> world" where
  "writeAll e st w =
     (case getMatchPaths e (pages st) of
        Inl err \<Rightarrow> (Inl err, w)
      | Inr mps \<Rightarrow>
          (let cs = getComponents (pages st);
               cleaned = cleanedSSRVisitedPageComponents e st cs;
               h = createHash e mps cs cleaned
           in if Some h = lastHash w then (Inr False, w)
              else writeFiles e st mps cs cleaned (w\<lparr>lastHash := Some h\<rparr>)))"

section \<open>A reference environment\<close>

text \<open>
  One instance of what the module takes from outside, on which the statements below
  are run: a matcher by segments (a splat takes the rest, a parameter takes one
  non-empty segment, any other segment must be equal), the comparison of strings by
  code units for \<^verbatim>\<open>localeCompare\<close>, a serialiser that lists the strings, the identity
  as digest, and a file system on which nothing fails.
\<close>

fun matchSegments :: "jsstring list \<Rightarrow> jsstring list \<Rightarrow> bool" where
  "matchSegments [] [] = True"
| "matchSegments [] (u # us) = False"
| "matchSegments (r # rs) us =
     (if isSplat r then True
      else (case us of
              [] \<Rightarrow> False
            | u # us' \<Rightarrow> (if isDynamic r then u \<noteq> [] else r = u) \<and> matchSegments rs us'))"

definition routeMatch :: "jsstring \<Rightarrow> jsstring \<Rightarrow> bool" where
  "routeMatch pattern uri = matchSegments (segmentize pattern) (segmentize uri)"

definition codeUnitCompare :: "jsstring \<Rightarrow> jsstring \<Rightarrow> int" where
  "codeUnitCompare a b = (if a < b then - 1 else if a = b then 0 else 1)"

definition listStrings ::
  "IGatsbyPageMatchPath list \<Rightarrow> IGatsbyPageComponent list \<Rightarrow> IGatsbyPageComponent list \<Rightarrow> jsstring"
where
  "listStrings mps cs cleaned =
     join (js '','')
       (concat (map (\<lambda>m. [mp_path m, (case mp_matchPath m of None \<Rightarrow> [] | Some s \<Rightarrow> s)]) mps)
        @ js ''|'' # concat (map (\<lambda>c. [component c, componentChunkName c]) cs)
        @ js ''|'' # concat (map (\<lambda>c. [component c, componentChunkName c]) cleaned))"

definition refEnv :: "unit env" where
  "refEnv =
     \<lparr>GATSBY_MAJOR = js ''5'',
      GATSBY_EXPERIMENTAL_DEV_SSR = None,
      gatsby_executing_command = Some (js ''build''),
      getPageMode = (\<lambda>p. SSG),
      match = routeMatch,
      localeCompare = codeUnitCompare,
      md5 = (\<lambda>s. s),
      JSON_stringify = listStrings,
      JSON_stringify_pretty = (\<lambda>mps. listStrings mps [] []),
      joinPath = join (js ''/''),
      relative = (\<lambda>from to. to),
      slash = (\<lambda>s. s),
      getAbsolutePathForVirtualModule = (\<lambda>s. js ''/'' @ s),
      Date_now = (\<lambda>destination. js ''0''),
      writeFileFails = (\<lambda>tmp. False),
      moveFails = (\<lambda>tmp destination. False)\<rparr>"

definition mkPage :: "string \<Rightarrow> string option \<Rightarrow> string \<Rightarrow> string \<Rightarrow> unit IGatsbyPage" where
  "mkPage p m c n =
     \<lparr>component = js c, componentChunkName = js n,
      path = js p, matchPath = map_option js m, otherFields = ()\<rparr>"

text \<open>Three pages, two of them with the chunk name \<^verbatim>\<open>c1\<close>.\<close>

definition catalogPages :: "unit IGatsbyPage list" where
  "catalogPages =
     [mkPage ''/b'' None ''B.js'' ''c2'',
      mkPage ''/a'' None ''A.js'' ''c1'',
      mkPage ''/c'' None ''C.js'' ''c1'']"

text \<open>
  A client-only route with a page under it, the same with a third page, and an
  environment under the compile flag 4 in which the component \<^verbatim>\<open>app\<close> is deferred.
\<close>

definition appPages :: "unit IGatsbyPage list" where
  "appPages =
     [mkPage ''/app/*'' (Some ''/app/*'') ''App.js'' ''app'',
      mkPage ''/app/settings'' None ''Settings.js'' ''settings'']"

definition blogPages :: "unit IGatsbyPage list" where
  "blogPages = appPages @ [mkPage ''/blog/*'' (Some ''/blog/*'') ''Blog.js'' ''blog'']"

definition v4Env :: "unit env" where
  "v4Env =
     refEnv\<lparr>GATSBY_MAJOR := js ''4'',
            getPageMode := (\<lambda>p. if componentChunkName p = js ''app'' then DSG else SSG)\<rparr>"

text \<open>Two pages with the same \<^verbatim>\<open>matchPath\<close>.\<close>

definition pageA :: "unit IGatsbyPage" where
  "pageA = mkPage ''/a'' (Some ''/x/*'') ''A.js'' ''a''"

definition pageB :: "unit IGatsbyPage" where
  "pageB = mkPage ''/b'' (Some ''/x/*'') ''B.js'' ''b''"

section \<open>The two loops in closed form\<close>

text \<open>
  What the two loops of \<^verbatim>\<open>getMatchPaths\<close> push for one page, as lists of no or one
  entry; the proofs show that the loops return the concatenation of these lists.
  \<open>collected\<close> is the condition under which the first loop pushes, and
  \<open>insideMatchPath\<close> is \<^verbatim>\<open>isInsideMatchPath\<close>.
\<close>

definition collected :: "'r env \<Rightarrow> 'r IGatsbyPage \<Rightarrow> bool" where
  "collected e p =
     (if GATSBY_MAJOR e = js ''4'' then truthy (matchPath p) \<and> getPageMode e p = SSG
      else truthy (matchPath p))"

definition explicitEntry :: "'r env \<Rightarrow> nat \<times> 'r IGatsbyPage \<Rightarrow> 'r IMatchPathEntry list" where
  "explicitEntry e jp =
     (case jp of (j, p) \<Rightarrow>
        (case matchPath p of
           None \<Rightarrow> []
         | Some m \<Rightarrow>
             if collected e p
             then [\<lparr>spread = p, entryMatchPath = m, index = j, score = rankRoute m\<rparr>]
             else []))"

definition insideMatchPath :: "'r env \<Rightarrow> 'r IMatchPathEntry list \<Rightarrow> 'r IGatsbyPage \<Rightarrow> bool" where
  "insideMatchPath e matchPathPages p =
     (\<not> truthy (matchPath p)
      \<and> list_ex (\<lambda>a. match e (entryMatchPath a) (path p)) matchPathPages)"

definition newMatchEntry ::
  "'r env \<Rightarrow> 'r IMatchPathEntry list \<Rightarrow> nat \<times> 'r IGatsbyPage \<Rightarrow> 'r IMatchPathEntry list"
where
  "newMatchEntry e matchPathPages jp =
     (case jp of (j, p) \<Rightarrow>
        if insideMatchPath e matchPathPages p
        then [\<lparr>spread = p\<lparr>matchPath := Some (path p)\<rparr>, entryMatchPath = path p,
               index = j, score = rankRoute (path p)\<rparr>]
        else [])"

definition explicitEntries :: "'r env \<Rightarrow> 'r IGatsbyPage list \<Rightarrow> 'r IMatchPathEntry list" where
  "explicitEntries e ps = concat (map (explicitEntry e) (enumerate 0 ps))"

definition newMatchEntries :: "'r env \<Rightarrow> 'r IGatsbyPage list \<Rightarrow> 'r IMatchPathEntry list" where
  "newMatchEntries e ps =
     concat (map (newMatchEntry e (explicitEntries e ps)) (enumerate 0 ps))"

text \<open>The score of an element of the result, recomputed from its \<^verbatim>\<open>matchPath\<close>.\<close>

definition matchPathScore :: "IGatsbyPageMatchPath \<Rightarrow> int" where
  "matchPathScore x = (case mp_matchPath x of None \<Rightarrow> 0 | Some m \<Rightarrow> rankRoute m)"

definition matchPathString :: "IGatsbyPageMatchPath \<Rightarrow> jsstring" where
  "matchPathString x = (case mp_matchPath x of None \<Rightarrow> [] | Some m \<Rightarrow> m)"

text \<open>The result of \<^verbatim>\<open>getMatchPaths\<close>, which never panics.\<close>

definition matchPathsOf :: "'r env \<Rightarrow> 'r IGatsbyPage list \<Rightarrow> IGatsbyPageMatchPath list" where
  "matchPathsOf e ps =
     map toMatchPath (sortWith (compareEntries e) (explicitEntries e ps @ newMatchEntries e ps))"

section \<open>The writes in closed form\<close>

text \<open>
  The three files that \<^verbatim>\<open>writeAll\<close> writes through \<^verbatim>\<open>writeAndMove\<close>, and the
  condition under which the chain for one of them is rejected.
\<close>

definition artifactFiles :: "jsstring list" where
  "artifactFiles = [js ''sync-requires.js'', js ''async-requires.js'', js ''match-paths.json'']"

definition writeFails :: "'r env \<Rightarrow> 'r IGatsbyState \<Rightarrow> jsstring \<Rightarrow> bool" where
  "writeFails e st file =
     (let destination = joinPath e [programDirectory st, js ''.cache'', file];
          tmp = destination @ js ''.'' @ Date_now e destination
      in writeFileFails e tmp \<or> moveFails e tmp destination)"

text \<open>The operations on files that one chain carries out.\<close>

definition settleEffects :: "'r env \<Rightarrow> pending \<Rightarrow> effect list" where
  "settleEffects e pr =
     (case pr of (tmp, destination, d) \<Rightarrow>
        if writeFileFails e tmp then []
        else if moveFails e tmp destination then [WriteFile tmp d]
        else [WriteFile tmp d, Move tmp destination])"

text \<open>
  Whether a chain is rejected; the promise that \<^verbatim>\<open>writeAndMove\<close> returns for a file;
  the virtual modules that \<^verbatim>\<open>writeAll\<close> writes before any file, and the three promises
  it waits for.
\<close>

definition rejected :: "'r env \<Rightarrow> pending \<Rightarrow> bool" where
  "rejected e pr = (case pr of (tmp, destination, d) \<Rightarrow>
      writeFileFails e tmp \<or> moveFails e tmp destination)"

definition pendingFor :: "'r env \<Rightarrow> 'r IGatsbyState \<Rightarrow> jsstring \<Rightarrow> jsstring \<Rightarrow> pending" where
  "pendingFor e st file d =
     (joinPath e [programDirectory st, js ''.cache'', file] @ js ''.''
         @ Date_now e (joinPath e [programDirectory st, js ''.cache'', file]),
       joinPath e [programDirectory st, js ''.cache'', file], d)"

definition moduleEffects ::
  "'r env \<Rightarrow> IGatsbyPageMatchPath list \<Rightarrow> IGatsbyPageComponent list
    \<Rightarrow> IGatsbyPageComponent list \<Rightarrow> effect list"
where
  "moduleEffects e mps cs cleaned =
     (if truthy (GATSBY_EXPERIMENTAL_DEV_SSR e)
      then [WriteModule (js ''$virtual/ssr-sync-requires'') (lazySyncRequires e cleaned),
            DevSSRWillInvalidate]
      else [])
     @ [WriteModule (js ''$virtual/sync-requires.js'') (syncRequires e cs),
        WriteModule (js ''$virtual/async-requires.js'') (asyncRequires e cs),
        WriteModule (js ''$virtual/match-paths.json'') (JSON_stringify_pretty e mps)]"

definition pendingWrites ::
  "'r env \<Rightarrow> 'r IGatsbyState \<Rightarrow> IGatsbyPageMatchPath list \<Rightarrow> IGatsbyPageComponent list
    \<Rightarrow> pending list"
where
  "pendingWrites e st mps cs =
     [pendingFor e st (js ''sync-requires.js'') (syncRequires e cs),
      pendingFor e st (js ''async-requires.js'') (asyncRequires e cs),
      pendingFor e st (js ''match-paths.json'') (JSON_stringify_pretty e mps)]"

section \<open>Example states\<close>

text \<open>
  The two pages of the end-to-end scenario of the specification; the pages of the
  client-only route, with a set of visited components; the world before the first call;
  an environment whose disk rejects the temporary file of \<^verbatim>\<open>match-paths.json\<close>, and one
  with the server-rendering flag set.
\<close>

definition homeState :: "unit IGatsbyState" where
  "homeState =
     \<lparr>programDirectory = js ''/site'',
      pages = [mkPage ''/'' None ''A'' ''A'', mkPage ''/about'' None ''B'' ''B''],
      visitedPages = []\<rparr>"

definition siteState :: "unit IGatsbyState" where
  "siteState =
     \<lparr>programDirectory = js ''/site'',
      pages = appPages,
      visitedPages = [(js ''server'', [js ''settings'', js ''gone''])]\<rparr>"

definition emptyWorld :: world where
  "emptyWorld = \<lparr>lastHash = None, effects = []\<rparr>"

definition brokenDiskEnv :: "unit env" where
  "brokenDiskEnv =
     refEnv\<lparr>writeFileFails := (\<lambda>tmp. tmp = js ''/site/.cache/match-paths.json.0'')\<rparr>"

definition ssrEnv :: "unit env" where
  "ssrEnv = refEnv\<lparr>GATSBY_EXPERIMENTAL_DEV_SSR := Some (js ''1'')\<rparr>"

text \<open>
  The world after a first call that succeeds, and after a second call, for another
  state, on the disk that fails.
\<close>

definition afterHome :: world where
  "afterHome = snd (writeAll refEnv homeState emptyWorld)"

definition afterFailure :: world where
  "afterFailure = snd (writeAll brokenDiskEnv siteState afterHome)"

section \<open>Properties of the route ranking\<close>

lemma rankStep_segmentScore: "rankStep acc seg = acc + segmentScore seg"
  by (simp add: rankStep_def segmentScore_def isRootSegment_def isSplat_def
      SEGMENT_POINTS_def STATIC_POINTS_def DYNAMIC_POINTS_def SPLAT_PENALTY_def ROOT_POINTS_def)

lemma foldl_rankStep: "foldl rankStep acc segs = acc + sum_list (map segmentScore segs)"
  by (induction segs arbitrary: acc) (simp_all add: rankStep_segmentScore)

lemma rankRoute_sum: "rankRoute p = sum_list (map segmentScore (segmentize p))"
  by (simp add: rankRoute_def foldl_rankStep)

lemmas js_chars = js_def slashChar_def colonChar_def starChar_def isLineTerminator_def

lemmas segmentize_eval = segmentize_def stripSlashes_def

text \<open>
  C2 (as stated): the score is the sum over the segments of the specification's rule,
  where a parameter segment is a colon followed by at least one character. The segment
  made of a colon and a line feed refutes it: the regular expression of the code does
  not accept it, so the code scores it as a static segment.
\<close>

theorem rankRoute_spec_counterexample:
  "rankRoute [colonChar, 0x0A] = 7 \<and> specScore [colonChar, 0x0A] = 6
   \<and> rankRoute [colonChar, 0x0A] \<noteq> specScore [colonChar, 0x0A]"
  by (simp add: rankRoute_sum specScore_def segmentScore_def specSegmentScore_def
      specIsParam_def segmentize_eval js_chars)

text \<open>
  C2 (amended): for every path, \<open>rankRoute\<close> is the sum over its segments of 4, plus 1
  for the empty segment, else plus 2 for a colon followed by a code unit that is not a
  line terminator, else minus 5 for \<^verbatim>\<open>*\<close>, else plus 3; it agrees with the
  specification's rule on every path without a segment that is a colon followed by a
  line terminator; the root path scores 5, and a splat ranks below a parameter, which
  ranks below a static segment.
\<close>

theorem rankRoute_segment_sum:
  "rankRoute p =
     (\<Sum>segment \<leftarrow> segmentize p.
        4 + (if segment = [] then 1
             else if (\<exists>d rest. segment = colonChar # d # rest \<and> \<not> isLineTerminator d) then 2
             else if segment = [starChar] then - 5
             else 3))
   \<and> ((\<forall>segment \<in> set (segmentize p). \<forall>d rest.
          segment = colonChar # d # rest \<longrightarrow> \<not> isLineTerminator d)
        \<longrightarrow> rankRoute p = specScore p)
   \<and> rankRoute (js ''/'') = 5
   \<and> rankRoute (js ''a/*'') < rankRoute (js ''a/:id'')
   \<and> rankRoute (js ''a/:id'') < rankRoute (js ''a/b'')"
proof -
  have dyn: "isDynamic s \<longleftrightarrow> (\<exists>d rest. s = colonChar # d # rest \<and> \<not> isLineTerminator d)"
    for s
    by (cases s rule: isDynamic.cases) auto
  have one: "rankRoute p =
     (\<Sum>segment \<leftarrow> segmentize p.
        4 + (if segment = [] then 1
             else if (\<exists>d rest. segment = colonChar # d # rest \<and> \<not> isLineTerminator d) then 2
             else if segment = [starChar] then - 5
             else 3))"
    unfolding rankRoute_sum segmentScore_def dyn ..
  have two: "rankRoute p = specScore p"
    if ok: "\<forall>segment \<in> set (segmentize p). \<forall>d rest.
          segment = colonChar # d # rest \<longrightarrow> \<not> isLineTerminator d"
  proof -
    have "segmentScore s = specSegmentScore s" if "s \<in> set (segmentize p)" for s
    proof -
      have "isDynamic s = specIsParam s"
        using ok that by (cases s rule: isDynamic.cases) (auto simp: specIsParam_def)
      then show ?thesis
        by (simp add: segmentScore_def specSegmentScore_def)
    qed
    then have "map segmentScore (segmentize p) = map specSegmentScore (segmentize p)"
      by simp
    then show ?thesis
      unfolding rankRoute_sum specScore_def by (rule arg_cong)
  qed
  have three: "rankRoute (js ''/'') = 5"
    by (simp add: rankRoute_sum segmentScore_def segmentize_eval js_chars)
  have four: "rankRoute (js ''a/*'') < rankRoute (js ''a/:id'')"
    by (simp add: rankRoute_sum segmentScore_def segmentize_eval js_chars)
  have five: "rankRoute (js ''a/:id'') < rankRoute (js ''a/b'')"
    by (simp add: rankRoute_sum segmentScore_def segmentize_eval js_chars)
  from one two three four five show ?thesis
    by blast
qed

theorem rankRoute_segment_sum_witness:
  "segmentize (js ''/app/:id/*'') = [js ''app'', js '':id'', js ''*'']
   \<and> rankRoute (js ''/app/:id/*'') = specScore (js ''/app/:id/*'')
   \<and> rankRoute (js ''/app/:id/*'') = 12"
proof -
  have segs: "segmentize (js ''/app/:id/*'') = [js ''app'', js '':id'', js ''*'']"
    by (simp add: segmentize_eval js_chars)
  have ok: "\<forall>segment \<in> set (segmentize (js ''/app/:id/*'')). \<forall>d rest.
       segment = colonChar # d # rest \<longrightarrow> \<not> isLineTerminator d"
    unfolding segs by (simp add: js_chars)
  have val: "specScore (js ''/app/:id/*'') = 12"
    unfolding specScore_def segs
    by (simp add: specSegmentScore_def specIsParam_def js_chars)
  from rankRoute_segment_sum [of "js ''/app/:id/*''"] ok val segs show ?thesis
    by simp
qed

section \<open>Properties of the component catalog\<close>

lemma baseUniq_subset: "set (baseUniq f seen xs) \<subseteq> set xs"
  by (induction xs arbitrary: seen) auto

lemma baseUniq_not_seen: "x \<in> set (baseUniq f seen xs) \<Longrightarrow> f x \<notin> set seen"
  by (induction f seen xs rule: baseUniq.induct) (auto split: if_splits)

lemma baseUniq_keys: "f ` set (baseUniq f seen xs) = f ` set xs - set seen"
proof (induction xs arbitrary: seen)
  case Nil
  show ?case by simp
next
  case (Cons x xs)
  show ?case
  proof (cases "f x \<in> set seen")
    case True
    then show ?thesis using Cons.IH [of seen] by auto
  next
    case False
    then show ?thesis using Cons.IH [of "f x # seen"] by auto
  qed
qed

lemma baseUniq_distinct: "distinct (map f (baseUniq f seen xs))"
proof (induction xs arbitrary: seen)
  case Nil
  show ?case by simp
next
  case (Cons x xs)
  have "f x \<notin> f ` set (baseUniq f (f x # seen) xs)"
    by (simp add: baseUniq_keys)
  with Cons.IH show ?case
    by simp
qed

lemma baseUniq_first:
  "x \<in> set (baseUniq f seen xs) \<Longrightarrow> find (\<lambda>y. f y = f x) xs = Some x"
proof (induction xs arbitrary: seen)
  case Nil
  then show ?case by simp
next
  case (Cons a xs)
  show ?case
  proof (cases "f a \<in> set seen")
    case True
    with Cons.prems have mem: "x \<in> set (baseUniq f seen xs)" by simp
    then have "f x \<notin> set seen" by (rule baseUniq_not_seen)
    with True have "f a \<noteq> f x" by auto
    with Cons.IH [OF mem] show ?thesis by simp
  next
    case False
    with Cons.prems consider "x = a" | "x \<in> set (baseUniq f (f a # seen) xs)" by auto
    then show ?thesis
    proof cases
      case 1
      then show ?thesis by simp
    next
      case 2
      then have "f x \<notin> set (f a # seen)" by (rule baseUniq_not_seen)
      then have "f a \<noteq> f x" by auto
      with Cons.IH [OF 2] show ?thesis by simp
    qed
  qed
qed

lemma find_map_comp: "find P (map g xs) = map_option g (find (\<lambda>x. P (g x)) xs)"
  by (induction xs) auto

lemma chunk_pick [simp]: "componentChunkName (pickComponentFields p) = componentChunkName p"
  by (simp add: pickComponentFields_def)

lemma getComponents_set:
  "set (getComponents ps) = set (baseUniq componentChunkName [] (map pickComponentFields ps))"
  by (simp add: getComponents_def orderBy_def uniqBy_def)

lemma getComponents_names_set:
  "componentChunkName ` set (getComponents ps) = componentChunkName ` set ps"
  by (simp add: getComponents_set baseUniq_keys image_image)

lemma getComponents_sorted: "sorted (map componentChunkName (getComponents ps))"
  by (simp add: getComponents_def orderBy_def)

lemma distinct_map_sort_key: "distinct (map f (sort_key f xs)) = distinct (map f xs)"
  by (induction xs) (simp_all add: distinct_insort_key)

lemma getComponents_distinct: "distinct (map componentChunkName (getComponents ps))"
  by (simp add: getComponents_def orderBy_def uniqBy_def distinct_map_sort_key baseUniq_distinct)

lemma getComponents_names:
  "map componentChunkName (getComponents ps) = sorted_list_of_set (componentChunkName ` set ps)"
proof -
  have "sorted_list_of_set (set (map componentChunkName (getComponents ps)))
          = map componentChunkName (getComponents ps)"
    using getComponents_sorted getComponents_distinct
    by (rule sorted_list_of_set.idem_if_sorted_distinct)
  then show ?thesis
    by (simp add: getComponents_names_set)
qed

lemma getComponents_first:
  assumes "c \<in> set (getComponents ps)"
  shows "\<exists>p. find (\<lambda>q. componentChunkName q = componentChunkName c) ps = Some p
             \<and> c = pickComponentFields p"
proof -
  from assms have "c \<in> set (baseUniq componentChunkName [] (map pickComponentFields ps))"
    by (simp add: getComponents_set)
  then have "find (\<lambda>y. componentChunkName y = componentChunkName c) (map pickComponentFields ps)
               = Some c"
    by (rule baseUniq_first)
  then show ?thesis
    by (auto simp: find_map_comp)
qed

text \<open>
  C5: \<open>getComponents\<close> returns the projection of the pages to their component and chunk
  name, with one record for each chunk name, the record of the first page that has this
  name, in ascending order of the chunk names, whatever the order of the pages. The
  argument is a value: nothing in the definition can change it, as the three functions
  of the source return new arrays.
\<close>

theorem getComponents_catalog:
  "map componentChunkName (getComponents ps)
     = sorted_list_of_set (componentChunkName ` set ps)
   \<and> sorted (map componentChunkName (getComponents ps))
   \<and> distinct (map componentChunkName (getComponents ps))
   \<and> (\<forall>c \<in> set (getComponents ps).
         \<exists>p. find (\<lambda>q. componentChunkName q = componentChunkName c) ps = Some p
             \<and> c = pickComponentFields p)
   \<and> (\<forall>ps'. set ps' = set ps \<longrightarrow>
         map componentChunkName (getComponents ps') = map componentChunkName (getComponents ps))"
proof -
  have "map componentChunkName (getComponents ps') = map componentChunkName (getComponents ps)"
    if "set ps' = set ps" for ps' :: "'a IGatsbyPage list"
    using that by (simp add: getComponents_names)
  then show ?thesis
    using getComponents_names [of ps] getComponents_sorted [of ps] getComponents_distinct [of ps]
      getComponents_first [of _ ps]
    by blast
qed

theorem getComponents_catalog_witness:
  "getComponents catalogPages
     = [\<lparr>component = js ''A.js'', componentChunkName = js ''c1''\<rparr>,
        \<lparr>component = js ''B.js'', componentChunkName = js ''c2''\<rparr>]
   \<and> (\<exists>p. find (\<lambda>q. componentChunkName q = js ''c1'') catalogPages = Some p
          \<and> \<lparr>component = js ''A.js'', componentChunkName = js ''c1''\<rparr> = pickComponentFields p)
   \<and> map componentChunkName (getComponents (rev catalogPages))
       = map componentChunkName (getComponents catalogPages)"
proof -
  have val: "getComponents catalogPages
     = [\<lparr>component = js ''A.js'', componentChunkName = js ''c1''\<rparr>,
        \<lparr>component = js ''B.js'', componentChunkName = js ''c2''\<rparr>]"
    by (simp add: getComponents_def orderBy_def uniqBy_def pickComponentFields_def
        catalogPages_def mkPage_def js_def)
  have perm: "set (rev catalogPages) = set catalogPages"
    by simp
  from getComponents_catalog [of catalogPages]
  have first: "\<forall>c \<in> set (getComponents catalogPages).
         \<exists>p. find (\<lambda>q. componentChunkName q = componentChunkName c) catalogPages = Some p
             \<and> c = pickComponentFields p"
    and order: "\<forall>ps'. set ps' = set catalogPages \<longrightarrow>
         map componentChunkName (getComponents ps')
           = map componentChunkName (getComponents catalogPages)"
    by blast+
  from first have one:
    "\<exists>p. find (\<lambda>q. componentChunkName q = js ''c1'') catalogPages = Some p
        \<and> \<lparr>component = js ''A.js'', componentChunkName = js ''c1''\<rparr> = pickComponentFields p"
    unfolding val by simp
  from order perm have two: "map componentChunkName (getComponents (rev catalogPages))
       = map componentChunkName (getComponents catalogPages)"
    by blast
  from val one two show ?thesis
    by (intro conjI)
qed

section \<open>Properties of the match paths\<close>

lemma truthy_Some: "truthy v \<Longrightarrow> \<exists>m. v = Some m"
  by (cases v) (simp_all add: truthy_def)

lemma collected_truthy: "collected e p \<Longrightarrow> truthy (matchPath p)"
  by (simp add: collected_def split: if_splits)

lemma collectMatchPathPage_closed:
  "collectMatchPathPage e p i acc = Inr (acc @ explicitEntry e (i, p))"
proof (cases "collected e p")
  case True
  then obtain m where "matchPath p = Some m"
    using collected_truthy truthy_Some by blast
  with True show ?thesis
    by (auto simp: collectMatchPathPage_def collected_def explicitEntry_def push_def
        createMatchPathEntry_def split: if_splits)
next
  case False
  then show ?thesis
    by (auto simp: collectMatchPathPage_def collected_def explicitEntry_def
        split: if_splits option.splits)
qed

lemma forEach_collectMatchPathPage:
  "forEach (collectMatchPathPage e) ps i acc
     = Inr (acc @ concat (map (explicitEntry e) (enumerate i ps)))"
  by (induction ps arbitrary: i acc) (simp_all add: collectMatchPathPage_closed)

lemma collectNewMatch_closed:
  "collectNewMatch e mpp p i acc = Inr (acc @ newMatchEntry e mpp (i, p))"
  by (auto simp: collectNewMatch_def newMatchEntry_def insideMatchPath_def push_def
      createMatchPathEntry_def Let_def find_None_iff list_ex_iff)

lemma forEach_collectNewMatch:
  "forEach (collectNewMatch e mpp) ps i acc
     = Inr (acc @ concat (map (newMatchEntry e mpp) (enumerate i ps)))"
  by (induction ps arbitrary: i acc) (simp_all add: collectNewMatch_closed)

lemma explicitMatchPathPages_closed: "explicitMatchPathPages e ps = Inr (explicitEntries e ps)"
  by (simp add: explicitMatchPathPages_def forEach_collectMatchPathPage explicitEntries_def)

lemma newMatchEntry_Nil: "newMatchEntry e [] jp = []"
  by (cases jp) (simp add: newMatchEntry_def insideMatchPath_def)

lemma allMatchPathPages_closed:
  "allMatchPathPages e ps = Inr (explicitEntries e ps @ newMatchEntries e ps)"
proof (cases "explicitEntries e ps = []")
  case True
  then show ?thesis
    by (simp add: allMatchPathPages_def explicitMatchPathPages_closed newMatchEntries_def
        newMatchEntry_Nil)
next
  case False
  then show ?thesis
    by (simp add: allMatchPathPages_def explicitMatchPathPages_closed newMatchEntries_def
        forEach_collectNewMatch)
qed

lemma getMatchPaths_closed:
  "getMatchPaths e ps =
     Inr (map toMatchPath (sortWith (compareEntries e)
            (explicitEntries e ps @ newMatchEntries e ps)))"
  by (simp add: getMatchPaths_def allMatchPathPages_closed)

lemma set_insertSorted: "set (insertSorted cmp x ys) = insert x (set ys)"
  by (induction ys) auto

lemma set_sortWith: "set (sortWith cmp xs) = set xs"
  by (induction xs) (simp_all add: sortWith_def set_insertSorted)

lemma length_insertSorted: "length (insertSorted cmp x ys) = Suc (length ys)"
  by (induction ys) auto

lemma length_sortWith: "length (sortWith cmp xs) = length xs"
  by (induction xs) (simp_all add: sortWith_def length_insertSorted)

lemma insertSorted_score:
  "sorted_wrt (\<lambda>a b. score b \<le> score a) ys
    \<Longrightarrow> sorted_wrt (\<lambda>a b. score b \<le> score a) (insertSorted (compareEntries e) x ys)"
proof (induction ys)
  case Nil
  then show ?case by simp
next
  case (Cons y ys)
  show ?case
  proof (cases "compareEntries e x y \<le> 0")
    case True
    then have "score y \<le> score x"
      by (simp add: compareEntries_def Let_def split: if_splits)
    with Cons.prems True show ?thesis
      by auto
  next
    case False
    then have "score x \<le> score y"
      by (simp add: compareEntries_def Let_def split: if_splits)
    with Cons False show ?thesis
      by (auto simp: set_insertSorted)
  qed
qed

lemma sortWith_score:
  "sorted_wrt (\<lambda>a b. score b \<le> score a) (sortWith (compareEntries e) xs)"
proof (induction xs)
  case Nil
  show ?case by (simp add: sortWith_def)
next
  case (Cons x xs)
  then show ?case
    using insertSorted_score [of "sortWith (compareEntries e) xs" e x]
    by (simp add: sortWith_def)
qed

lemma explicitEntry_score: "a \<in> set (explicitEntry e jp) \<Longrightarrow> score a = rankRoute (entryMatchPath a)"
  by (cases jp) (auto simp: explicitEntry_def split: option.splits if_splits)

lemma newMatchEntry_score:
  "a \<in> set (newMatchEntry e mpp jp) \<Longrightarrow> score a = rankRoute (entryMatchPath a)"
  by (cases jp) (auto simp: newMatchEntry_def split: if_splits)

lemma matchPathScore_toMatchPath: "matchPathScore (toMatchPath a) = rankRoute (entryMatchPath a)"
  by (simp add: matchPathScore_def toMatchPath_def)

lemma allMatchPathPages_score:
  assumes "allMatchPathPages e ps = Inr es" and "a \<in> set es"
  shows "score a = rankRoute (entryMatchPath a)"
proof -
  from assms have "a \<in> set (explicitEntries e ps) \<or> a \<in> set (newMatchEntries e ps)"
    by (auto simp: allMatchPathPages_closed)
  then show ?thesis
    unfolding explicitEntries_def newMatchEntries_def
    by (auto dest: explicitEntry_score newMatchEntry_score)
qed

lemma getMatchPaths_sorted_by_score:
  assumes "getMatchPaths e ps = Inr out"
  shows "sorted_wrt (\<lambda>x y. matchPathScore y \<le> matchPathScore x) out"
proof -
  obtain es where es: "allMatchPathPages e ps = Inr es"
    by (simp add: allMatchPathPages_closed)
  with assms have out: "out = map toMatchPath (sortWith (compareEntries e) es)"
    by (simp add: getMatchPaths_def)
  have "sorted_wrt (\<lambda>a b. score b \<le> score a) (sortWith (compareEntries e) es)"
    by (rule sortWith_score)
  then have "sorted_wrt (\<lambda>a b. rankRoute (entryMatchPath b) \<le> rankRoute (entryMatchPath a))
               (sortWith (compareEntries e) es)"
  proof (rule sorted_wrt_mono_rel [rotated])
    fix a b
    assume "a \<in> set (sortWith (compareEntries e) es)" "b \<in> set (sortWith (compareEntries e) es)"
      "score b \<le> score a"
    then show "rankRoute (entryMatchPath b) \<le> rankRoute (entryMatchPath a)"
      using allMatchPathPages_score [OF es] by (simp add: set_sortWith)
  qed
  then show ?thesis
    by (simp add: out sorted_wrt_map matchPathScore_toMatchPath)
qed

lemma enumerate_member:
  assumes "p \<in> set ps"
  shows "\<exists>j. j < length ps \<and> (j, p) \<in> set (enumerate 0 ps)"
proof -
  from assms obtain j where "j < length ps" "ps ! j = p"
    by (auto simp: in_set_conv_nth)
  then have "j < length ps \<and> (j, p) \<in> set (enumerate 0 ps)"
    by (simp add: in_set_enumerate_eq)
  then show ?thesis ..
qed

lemma getMatchPaths_set:
  assumes "getMatchPaths e ps = Inr out"
  shows "set out = toMatchPath ` (set (explicitEntries e ps) \<union> set (newMatchEntries e ps))"
proof -
  from assms
  have "out = map toMatchPath (sortWith (compareEntries e)
                (explicitEntries e ps @ newMatchEntries e ps))"
    by (simp add: getMatchPaths_closed)
  then show ?thesis
    by (simp add: set_sortWith)
qed

lemma explicit_entry_member:
  assumes "q \<in> set ps" and "collected e q" and "matchPath q = Some m"
  shows "\<exists>j < length ps.
           \<lparr>spread = q, entryMatchPath = m, index = j, score = rankRoute m\<rparr>
             \<in> set (explicitEntries e ps)"
proof -
  from enumerate_member [OF assms(1)]
  obtain j where j: "j < length ps" "(j, q) \<in> set (enumerate 0 ps)"
    by (elim exE conjE)
  let ?a = "\<lparr>spread = q, entryMatchPath = m, index = j, score = rankRoute m\<rparr>"
  have "?a \<in> set (explicitEntry e (j, q))"
    using assms(2,3) by (simp add: explicitEntry_def)
  with j(2) have "?a \<in> (\<Union>jp \<in> set (enumerate 0 ps). set (explicitEntry e jp))"
    by (rule UN_I)
  then have "?a \<in> set (explicitEntries e ps)"
    by (simp add: explicitEntries_def)
  with j(1) show ?thesis
    by blast
qed

lemma new_entry_member:
  assumes "p \<in> set ps" and "insideMatchPath e (explicitEntries e ps) p"
  shows "\<exists>k < length ps.
           \<lparr>spread = p\<lparr>matchPath := Some (path p)\<rparr>, entryMatchPath = path p,
             index = k, score = rankRoute (path p)\<rparr> \<in> set (newMatchEntries e ps)"
proof -
  from enumerate_member [OF assms(1)]
  obtain k where k: "k < length ps" "(k, p) \<in> set (enumerate 0 ps)"
    by (elim exE conjE)
  let ?a = "\<lparr>spread = p\<lparr>matchPath := Some (path p)\<rparr>, entryMatchPath = path p,
               index = k, score = rankRoute (path p)\<rparr>"
  have "?a \<in> set (newMatchEntry e (explicitEntries e ps) (k, p))"
    using assms(2) by (simp add: newMatchEntry_def)
  with k(2)
  have "?a \<in> (\<Union>jp \<in> set (enumerate 0 ps). set (newMatchEntry e (explicitEntries e ps) jp))"
    by (rule UN_I)
  then have "?a \<in> set (newMatchEntries e ps)"
    by (simp add: newMatchEntries_def)
  with k(1) show ?thesis
    by blast
qed

lemma explicit_in_out:
  assumes "q \<in> set ps" and "collected e q" and "matchPath q = Some m"
    and "getMatchPaths e ps = Inr out"
  shows "\<lparr>mp_path = path q, mp_matchPath = Some m\<rparr> \<in> set out"
proof -
  from explicit_entry_member [OF assms(1,2,3)] obtain j
    where "\<lparr>spread = q, entryMatchPath = m, index = j, score = rankRoute m\<rparr>
             \<in> set (explicitEntries e ps)"
    by blast
  then have "toMatchPath \<lparr>spread = q, entryMatchPath = m, index = j, score = rankRoute m\<rparr>
               \<in> set out"
    unfolding getMatchPaths_set [OF assms(4)] by blast
  then show ?thesis
    by (simp add: toMatchPath_def)
qed

lemma implicit_in_out:
  assumes "p \<in> set ps" and "\<not> truthy (matchPath p)"
    and "q \<in> set ps" and "collected e q" and "matchPath q = Some m"
    and "match e m (path p)"
    and "getMatchPaths e ps = Inr out"
  shows "\<lparr>mp_path = path p, mp_matchPath = Some (path p)\<rparr> \<in> set out"
proof -
  from explicit_entry_member [OF assms(3,4,5)] obtain j
    where "\<lparr>spread = q, entryMatchPath = m, index = j, score = rankRoute m\<rparr>
             \<in> set (explicitEntries e ps)"
    by blast
  then have "\<exists>a \<in> set (explicitEntries e ps). match e (entryMatchPath a) (path p)"
    using assms(6) by (intro bexI [where x = "\<lparr>spread = q, entryMatchPath = m, index = j,
      score = rankRoute m\<rparr>"]) simp_all
  with assms(2) have "insideMatchPath e (explicitEntries e ps) p"
    by (simp add: insideMatchPath_def list_ex_iff)
  from new_entry_member [OF assms(1) this] obtain k
    where "\<lparr>spread = p\<lparr>matchPath := Some (path p)\<rparr>, entryMatchPath = path p,
             index = k, score = rankRoute (path p)\<rparr> \<in> set (newMatchEntries e ps)"
    by blast
  then have "toMatchPath \<lparr>spread = p\<lparr>matchPath := Some (path p)\<rparr>, entryMatchPath = path p,
             index = k, score = rankRoute (path p)\<rparr> \<in> set out"
    unfolding getMatchPaths_set [OF assms(7)] by blast
  then show ?thesis
    by (simp add: toMatchPath_def)
qed

lemma sorted_by_score_order:
  assumes "sorted_wrt (\<lambda>x y. matchPathScore y \<le> matchPathScore x) out"
    and "i < length out" and "j < length out"
    and "matchPathScore (out ! j) < matchPathScore (out ! i)"
  shows "i < j"
proof (rule ccontr)
  assume "\<not> i < j"
  then consider "j < i" | "j = i" by linarith
  then show False
  proof cases
    case 1
    with assms(1,2) have "matchPathScore (out ! i) \<le> matchPathScore (out ! j)"
      by (simp add: sorted_wrt_iff_nth_less)
    with assms(4) show False by simp
  next
    case 2
    with assms(4) show False by simp
  qed
qed

lemma rank_settings: "rankRoute (js ''/app/settings'') = 14"
  by (simp add: rankRoute_sum segmentScore_def segmentize_eval js_chars)

lemma rank_wild: "rankRoute (js ''/app/*'') = 6"
  by (simp add: rankRoute_sum segmentScore_def segmentize_eval js_chars)

lemma collected_iff:
  "collected e q \<longleftrightarrow> truthy (matchPath q) \<and> (GATSBY_MAJOR e = js ''4'' \<longrightarrow> getPageMode e q = SSG)"
  by (simp add: collected_def)

text \<open>
  C3 (amended): every page without a truthy \<^verbatim>\<open>matchPath\<close> whose path is matched by the
  \<^verbatim>\<open>matchPath\<close> of a collected page (a page with a truthy \<^verbatim>\<open>matchPath\<close> and, under
  the compile flag 4, the mode SSG) yields an entry whose \<^verbatim>\<open>matchPath\<close> is its own path;
  when the pages contain a collected page with path and \<^verbatim>\<open>matchPath\<close> \<^verbatim>\<open>/app/*\<close> and a
  page \<^verbatim>\<open>/app/settings\<close> without \<^verbatim>\<open>matchPath\<close>, and the router matches the one against
  the other, the result contains both entries, every entry for \<^verbatim>\<open>/app/settings\<close> before
  every entry for \<^verbatim>\<open>/app/*\<close>.
\<close>

theorem getMatchPaths_implicit:
  "\<exists>out. getMatchPaths e ps = Inr out
     \<and> (\<forall>p \<in> set ps. \<forall>q \<in> set ps. \<forall>m.
           \<not> truthy (matchPath p)
           \<and> matchPath q = Some m \<and> truthy (matchPath q)
           \<and> (GATSBY_MAJOR e = js ''4'' \<longrightarrow> getPageMode e q = SSG)
           \<and> match e m (path p)
           \<longrightarrow> \<lparr>mp_path = path p, mp_matchPath = Some (path p)\<rparr> \<in> set out)
     \<and> ((\<exists>wild \<in> set ps. \<exists>settings \<in> set ps.
            path wild = js ''/app/*'' \<and> matchPath wild = Some (js ''/app/*'')
            \<and> (GATSBY_MAJOR e = js ''4'' \<longrightarrow> getPageMode e wild = SSG)
            \<and> path settings = js ''/app/settings'' \<and> matchPath settings = None
            \<and> match e (js ''/app/*'') (js ''/app/settings''))
          \<longrightarrow> \<lparr>mp_path = js ''/app/settings'', mp_matchPath = Some (js ''/app/settings'')\<rparr>
                \<in> set out
              \<and> \<lparr>mp_path = js ''/app/*'', mp_matchPath = Some (js ''/app/*'')\<rparr> \<in> set out
              \<and> (\<forall>i j. i < length out \<and> j < length out
                    \<and> out ! i = \<lparr>mp_path = js ''/app/settings'',
                                  mp_matchPath = Some (js ''/app/settings'')\<rparr>
                    \<and> out ! j = \<lparr>mp_path = js ''/app/*'', mp_matchPath = Some (js ''/app/*'')\<rparr>
                    \<longrightarrow> i < j))"
proof -
  obtain out where out: "getMatchPaths e ps = Inr out"
    by (simp add: getMatchPaths_closed)
  have general: "\<lparr>mp_path = path p, mp_matchPath = Some (path p)\<rparr> \<in> set out"
    if "p \<in> set ps" "q \<in> set ps" "\<not> truthy (matchPath p)" "matchPath q = Some m"
      "truthy (matchPath q)" "GATSBY_MAJOR e = js ''4'' \<longrightarrow> getPageMode e q = SSG"
      "match e m (path p)" for p q m
    using that implicit_in_out [OF _ _ _ _ _ _ out, of p q m] by (simp add: collected_iff)
  have example:
    "\<lparr>mp_path = js ''/app/settings'', mp_matchPath = Some (js ''/app/settings'')\<rparr> \<in> set out
     \<and> \<lparr>mp_path = js ''/app/*'', mp_matchPath = Some (js ''/app/*'')\<rparr> \<in> set out
     \<and> (\<forall>i j. i < length out \<and> j < length out
           \<and> out ! i = \<lparr>mp_path = js ''/app/settings'',
                         mp_matchPath = Some (js ''/app/settings'')\<rparr>
           \<and> out ! j = \<lparr>mp_path = js ''/app/*'', mp_matchPath = Some (js ''/app/*'')\<rparr>
           \<longrightarrow> i < j)"
    if w: "wild \<in> set ps" "path wild = js ''/app/*''" "matchPath wild = Some (js ''/app/*'')"
      "GATSBY_MAJOR e = js ''4'' \<longrightarrow> getPageMode e wild = SSG"
      and s: "settings \<in> set ps" "path settings = js ''/app/settings''"
      "matchPath settings = None"
      and m: "match e (js ''/app/*'') (js ''/app/settings'')"
    for wild settings
  proof -
    have tw: "truthy (matchPath wild)"
      using w(3) by (simp add: truthy_def js_def)
    then have cw: "collected e wild"
      using w(4) by (simp add: collected_iff)
    have one: "\<lparr>mp_path = js ''/app/settings'', mp_matchPath = Some (js ''/app/settings'')\<rparr>
                 \<in> set out"
      using implicit_in_out [OF s(1) _ w(1) cw w(3) _ out] s(2,3) m
      by (simp add: truthy_def)
    have two: "\<lparr>mp_path = js ''/app/*'', mp_matchPath = Some (js ''/app/*'')\<rparr> \<in> set out"
      using explicit_in_out [OF w(1) cw w(3) out] w(2) by simp
    have three: "i < j"
      if "i < length out" "j < length out"
        "out ! i = \<lparr>mp_path = js ''/app/settings'', mp_matchPath = Some (js ''/app/settings'')\<rparr>"
        "out ! j = \<lparr>mp_path = js ''/app/*'', mp_matchPath = Some (js ''/app/*'')\<rparr>"
      for i j
    proof (rule sorted_by_score_order [OF getMatchPaths_sorted_by_score [OF out] that(1,2)])
      show "matchPathScore (out ! j) < matchPathScore (out ! i)"
        by (simp add: that(3,4) matchPathScore_def rank_settings rank_wild)
    qed
    from three have "\<forall>i j. i < length out \<and> j < length out
           \<and> out ! i = \<lparr>mp_path = js ''/app/settings'',
                         mp_matchPath = Some (js ''/app/settings'')\<rparr>
           \<and> out ! j = \<lparr>mp_path = js ''/app/*'', mp_matchPath = Some (js ''/app/*'')\<rparr>
           \<longrightarrow> i < j"
      by (intro allI impI) (elim conjE)
    with one two show ?thesis
      by (intro conjI)
  qed
  show ?thesis
  proof (intro exI [where x = out] conjI)
    show "getMatchPaths e ps = Inr out"
      by (rule out)
    show "\<forall>p \<in> set ps. \<forall>q \<in> set ps. \<forall>m.
           \<not> truthy (matchPath p)
           \<and> matchPath q = Some m \<and> truthy (matchPath q)
           \<and> (GATSBY_MAJOR e = js ''4'' \<longrightarrow> getPageMode e q = SSG)
           \<and> match e m (path p)
           \<longrightarrow> \<lparr>mp_path = path p, mp_matchPath = Some (path p)\<rparr> \<in> set out"
      using general by blast
    show "(\<exists>wild \<in> set ps. \<exists>settings \<in> set ps.
            path wild = js ''/app/*'' \<and> matchPath wild = Some (js ''/app/*'')
            \<and> (GATSBY_MAJOR e = js ''4'' \<longrightarrow> getPageMode e wild = SSG)
            \<and> path settings = js ''/app/settings'' \<and> matchPath settings = None
            \<and> match e (js ''/app/*'') (js ''/app/settings''))
          \<longrightarrow> \<lparr>mp_path = js ''/app/settings'', mp_matchPath = Some (js ''/app/settings'')\<rparr>
                \<in> set out
              \<and> \<lparr>mp_path = js ''/app/*'', mp_matchPath = Some (js ''/app/*'')\<rparr> \<in> set out
              \<and> (\<forall>i j. i < length out \<and> j < length out
                    \<and> out ! i = \<lparr>mp_path = js ''/app/settings'',
                                  mp_matchPath = Some (js ''/app/settings'')\<rparr>
                    \<and> out ! j = \<lparr>mp_path = js ''/app/*'', mp_matchPath = Some (js ''/app/*'')\<rparr>
                    \<longrightarrow> i < j)"
    proof (rule impI, elim bexE conjE)
      fix wild settings
      assume a: "wild \<in> set ps" "settings \<in> set ps"
        "path wild = js ''/app/*''" "matchPath wild = Some (js ''/app/*'')"
        "GATSBY_MAJOR e = js ''4'' \<longrightarrow> getPageMode e wild = SSG"
        "path settings = js ''/app/settings''" "matchPath settings = None"
        "match e (js ''/app/*'') (js ''/app/settings'')"
      show "\<lparr>mp_path = js ''/app/settings'', mp_matchPath = Some (js ''/app/settings'')\<rparr>
                \<in> set out
              \<and> \<lparr>mp_path = js ''/app/*'', mp_matchPath = Some (js ''/app/*'')\<rparr> \<in> set out
              \<and> (\<forall>i j. i < length out \<and> j < length out
                    \<and> out ! i = \<lparr>mp_path = js ''/app/settings'',
                                  mp_matchPath = Some (js ''/app/settings'')\<rparr>
                    \<and> out ! j = \<lparr>mp_path = js ''/app/*'', mp_matchPath = Some (js ''/app/*'')\<rparr>
                    \<longrightarrow> i < j)"
        by (rule example [OF a(1) a(3) a(4) a(5) a(2) a(6) a(7) a(8)])
    qed
  qed
qed

lemmas example_eval =
  appPages_def blogPages_def pageA_def pageB_def mkPage_def refEnv_def v4Env_def
  routeMatch_def codeUnitCompare_def

lemmas getMatchPaths_eval =
  getMatchPaths_closed explicitEntries_def newMatchEntries_def explicitEntry_def
  newMatchEntry_def insideMatchPath_def collected_def truthy_def sortWith_def
  compareEntries_def toMatchPath_def

text \<open>
  C3 (as stated): whenever the pages contain a page with the \<^verbatim>\<open>matchPath\<close> \<^verbatim>\<open>/app/*\<close> and
  a page \<^verbatim>\<open>/app/settings\<close> without \<^verbatim>\<open>matchPath\<close>, the result contains the two entries.
  Under the compile flag 4 a page whose mode is not SSG is not collected, and the result
  for these two pages is empty.
\<close>

theorem getMatchPaths_implicit_counterexample:
  "getMatchPaths v4Env appPages = Inr []
   \<and> match v4Env (js ''/app/*'') (js ''/app/settings'')
   \<and> appPages = [mkPage ''/app/*'' (Some ''/app/*'') ''App.js'' ''app'',
                  mkPage ''/app/settings'' None ''Settings.js'' ''settings'']"
  by (simp add: getMatchPaths_eval example_eval segmentize_eval js_chars isSplat_def)

theorem getMatchPaths_implicit_witness:
  "getMatchPaths refEnv appPages
     = Inr [\<lparr>mp_path = js ''/app/settings'', mp_matchPath = Some (js ''/app/settings'')\<rparr>,
            \<lparr>mp_path = js ''/app/*'', mp_matchPath = Some (js ''/app/*'')\<rparr>]
   \<and> (\<exists>out. getMatchPaths refEnv appPages = Inr out
          \<and> \<lparr>mp_path = js ''/app/settings'', mp_matchPath = Some (js ''/app/settings'')\<rparr>
                \<in> set out
          \<and> \<lparr>mp_path = js ''/app/*'', mp_matchPath = Some (js ''/app/*'')\<rparr> \<in> set out
          \<and> (\<forall>i j. i < length out \<and> j < length out
                \<and> out ! i = \<lparr>mp_path = js ''/app/settings'',
                              mp_matchPath = Some (js ''/app/settings'')\<rparr>
                \<and> out ! j = \<lparr>mp_path = js ''/app/*'', mp_matchPath = Some (js ''/app/*'')\<rparr>
                \<longrightarrow> i < j))"
proof -
  have m: "match refEnv (js ''/app/*'') (js ''/app/settings'')"
    by (simp add: example_eval segmentize_eval js_chars isSplat_def)
  have premise: "\<exists>wild \<in> set appPages. \<exists>settings \<in> set appPages.
            path wild = js ''/app/*'' \<and> matchPath wild = Some (js ''/app/*'')
            \<and> (GATSBY_MAJOR refEnv = js ''4'' \<longrightarrow> getPageMode refEnv wild = SSG)
            \<and> path settings = js ''/app/settings'' \<and> matchPath settings = None
            \<and> match refEnv (js ''/app/*'') (js ''/app/settings'')"
    using m by (simp add: appPages_def mkPage_def refEnv_def)
  have val: "getMatchPaths refEnv appPages
     = Inr [\<lparr>mp_path = js ''/app/settings'', mp_matchPath = Some (js ''/app/settings'')\<rparr>,
            \<lparr>mp_path = js ''/app/*'', mp_matchPath = Some (js ''/app/*'')\<rparr>]"
    by (simp add: getMatchPaths_eval example_eval segmentize_eval js_chars isSplat_def
        rankRoute_sum segmentScore_def)
  from getMatchPaths_implicit [of refEnv appPages] premise val show ?thesis
    by blast
qed

text \<open>
  What the sort gives for a comparator that is total and transitive: the result is in
  the order of the comparator, that is, descending by score and, for equal scores,
  ascending by \<^verbatim>\<open>localeCompare\<close> of the \<^verbatim>\<open>matchPath\<close>.
\<close>

lemma insertSorted_sorted:
  assumes total: "\<And>a b. cmp a b \<le> 0 \<or> cmp b a \<le> 0"
    and trans: "\<And>a b c. cmp a b \<le> 0 \<Longrightarrow> cmp b c \<le> 0 \<Longrightarrow> cmp a c \<le> 0"
    and "sorted_wrt (\<lambda>a b. cmp a b \<le> 0) ys"
  shows "sorted_wrt (\<lambda>a b. cmp a b \<le> 0) (insertSorted cmp x ys)"
  using assms(3)
proof (induction ys)
  case Nil
  then show ?case by simp
next
  case (Cons y ys)
  show ?case
  proof (cases "cmp x y \<le> 0")
    case True
    with Cons.prems trans show ?thesis
      by auto
  next
    case False
    with total have "cmp y x \<le> 0"
      by blast
    with Cons False show ?thesis
      by (auto simp: set_insertSorted)
  qed
qed

lemma sortWith_sorted:
  assumes total: "\<And>a b. cmp a b \<le> 0 \<or> cmp b a \<le> 0"
    and trans: "\<And>a b c. cmp a b \<le> 0 \<Longrightarrow> cmp b c \<le> 0 \<Longrightarrow> cmp a c \<le> 0"
  shows "sorted_wrt (\<lambda>a b. cmp a b \<le> 0) (sortWith cmp xs)"
proof (induction xs)
  case Nil
  show ?case by (simp add: sortWith_def)
next
  case (Cons x xs)
  have "sorted_wrt (\<lambda>a b. cmp a b \<le> 0) (insertSorted cmp x (sortWith cmp xs))"
    using total trans Cons.IH by (rule insertSorted_sorted)
  then show ?case
    by (simp add: sortWith_def)
qed

lemma compareEntries_le:
  "compareEntries e a b \<le> 0 \<longleftrightarrow>
     score b < score a
     \<or> (score b = score a \<and> localeCompare e (entryMatchPath a) (entryMatchPath b) \<le> 0)"
  by (auto simp: compareEntries_def Let_def)

lemma getMatchPaths_tie_break:
  assumes total: "\<And>a b. localeCompare e a b \<le> 0 \<or> localeCompare e b a \<le> 0"
    and trans: "\<And>a b c. localeCompare e a b \<le> 0 \<Longrightarrow> localeCompare e b c \<le> 0
                  \<Longrightarrow> localeCompare e a c \<le> 0"
    and out: "getMatchPaths e ps = Inr out"
  shows "sorted_wrt (\<lambda>x y. matchPathScore y < matchPathScore x
            \<or> (matchPathScore y = matchPathScore x
                \<and> localeCompare e (matchPathString x) (matchPathString y) \<le> 0)) out"
proof -
  let ?es = "explicitEntries e ps @ newMatchEntries e ps"
  have es: "allMatchPathPages e ps = Inr ?es"
    by (rule allMatchPathPages_closed)
  have t: "compareEntries e a b \<le> 0 \<or> compareEntries e b a \<le> 0" for a b
    using total [of "entryMatchPath a" "entryMatchPath b"] by (auto simp: compareEntries_le)
  have tr: "compareEntries e a c \<le> 0"
    if "compareEntries e a b \<le> 0" "compareEntries e b c \<le> 0" for a b c
    using that trans [of "entryMatchPath a" "entryMatchPath b" "entryMatchPath c"]
    by (auto simp: compareEntries_le)
  have "sorted_wrt (\<lambda>a b. compareEntries e a b \<le> 0) (sortWith (compareEntries e) ?es)"
    using t tr by (rule sortWith_sorted)
  then have "sorted_wrt (\<lambda>a b. matchPathScore (toMatchPath b) < matchPathScore (toMatchPath a)
            \<or> (matchPathScore (toMatchPath b) = matchPathScore (toMatchPath a)
                \<and> localeCompare e (matchPathString (toMatchPath a))
                      (matchPathString (toMatchPath b)) \<le> 0))
          (sortWith (compareEntries e) ?es)"
  proof (rule sorted_wrt_mono_rel [rotated])
    fix a b
    assume "a \<in> set (sortWith (compareEntries e) ?es)" "b \<in> set (sortWith (compareEntries e) ?es)"
      and le: "compareEntries e a b \<le> 0"
    then have "score a = rankRoute (entryMatchPath a)" "score b = rankRoute (entryMatchPath b)"
      using allMatchPathPages_score [OF es] by (simp_all add: set_sortWith)
    with le show "matchPathScore (toMatchPath b) < matchPathScore (toMatchPath a)
            \<or> (matchPathScore (toMatchPath b) = matchPathScore (toMatchPath a)
                \<and> localeCompare e (matchPathString (toMatchPath a))
                      (matchPathString (toMatchPath b)) \<le> 0)"
      by (simp add: compareEntries_le matchPathScore_def matchPathString_def
          toMatchPath_def)
  qed
  moreover from out have "out = map toMatchPath (sortWith (compareEntries e) ?es)"
    by (simp add: getMatchPaths_closed)
  ultimately show ?thesis
    by (simp add: sorted_wrt_map)
qed

text \<open>
  C4: the result is sorted descending by score, entries of equal score are ordered by
  the comparison of their \<^verbatim>\<open>matchPath\<close>, and the result is the same for every
  permutation of the pages. The code at two pages with the same \<^verbatim>\<open>matchPath\<close>: the
  comparator returns 0 for them, the stable sort keeps them in the order of the pages,
  and the two orders of the pages give two different results.
\<close>

theorem getMatchPaths_page_order:
  assumes "localeCompare e (js ''/x/*'') (js ''/x/*'') = 0"
    and "GATSBY_MAJOR e = js ''4'' \<longrightarrow> getPageMode e pa = SSG \<and> getPageMode e pb = SSG"
    and "path pa = js ''/a''" and "matchPath pa = Some (js ''/x/*'')"
    and "path pb = js ''/b''" and "matchPath pb = Some (js ''/x/*'')"
  shows "getMatchPaths e [pa, pb]
           = Inr [\<lparr>mp_path = js ''/a'', mp_matchPath = Some (js ''/x/*'')\<rparr>,
                  \<lparr>mp_path = js ''/b'', mp_matchPath = Some (js ''/x/*'')\<rparr>]
         \<and> getMatchPaths e [pb, pa]
           = Inr [\<lparr>mp_path = js ''/b'', mp_matchPath = Some (js ''/x/*'')\<rparr>,
                  \<lparr>mp_path = js ''/a'', mp_matchPath = Some (js ''/x/*'')\<rparr>]
         \<and> getMatchPaths e [pa, pb] \<noteq> getMatchPaths e [pb, pa]"
proof -
  have ne: "js ''/x/*'' \<noteq> []" "js ''/a'' \<noteq> js ''/b''"
    by (simp_all add: js_def)
  have one: "getMatchPaths e [pa, pb]
           = Inr [\<lparr>mp_path = js ''/a'', mp_matchPath = Some (js ''/x/*'')\<rparr>,
                  \<lparr>mp_path = js ''/b'', mp_matchPath = Some (js ''/x/*'')\<rparr>]"
    using assms ne(1) by (simp add: getMatchPaths_eval)
  have two: "getMatchPaths e [pb, pa]
           = Inr [\<lparr>mp_path = js ''/b'', mp_matchPath = Some (js ''/x/*'')\<rparr>,
                  \<lparr>mp_path = js ''/a'', mp_matchPath = Some (js ''/x/*'')\<rparr>]"
    using assms ne(1) by (simp add: getMatchPaths_eval)
  show ?thesis
    unfolding one two using ne(2) by simp
qed

theorem getMatchPaths_page_order_witness:
  "localeCompare refEnv (js ''/x/*'') (js ''/x/*'') = 0
   \<and> set [pageA, pageB] = set [pageB, pageA]
   \<and> getMatchPaths refEnv [pageA, pageB]
       = Inr [\<lparr>mp_path = js ''/a'', mp_matchPath = Some (js ''/x/*'')\<rparr>,
              \<lparr>mp_path = js ''/b'', mp_matchPath = Some (js ''/x/*'')\<rparr>]
   \<and> getMatchPaths refEnv [pageB, pageA]
       = Inr [\<lparr>mp_path = js ''/b'', mp_matchPath = Some (js ''/x/*'')\<rparr>,
              \<lparr>mp_path = js ''/a'', mp_matchPath = Some (js ''/x/*'')\<rparr>]
   \<and> getMatchPaths refEnv [pageA, pageB] \<noteq> getMatchPaths refEnv [pageB, pageA]"
proof -
  have h1: "localeCompare refEnv (js ''/x/*'') (js ''/x/*'') = 0"
    by (simp add: refEnv_def codeUnitCompare_def)
  have h2: "GATSBY_MAJOR refEnv = js ''4''
              \<longrightarrow> getPageMode refEnv pageA = SSG \<and> getPageMode refEnv pageB = SSG"
    by (simp add: refEnv_def)
  have h3: "path pageA = js ''/a''" "matchPath pageA = Some (js ''/x/*'')"
    "path pageB = js ''/b''" "matchPath pageB = Some (js ''/x/*'')"
    by (simp_all add: pageA_def pageB_def mkPage_def)
  have "set [pageA, pageB] = set [pageB, pageA]"
    by auto
  with h1 getMatchPaths_page_order [OF h1 h2 h3] show ?thesis
    by blast
qed




lemma explicitEntries_iff:
  "a \<in> set (explicitEntries e ps) \<longleftrightarrow> (\<exists>j<length ps. a \<in> set (explicitEntry e (j, ps ! j)))"
  by (auto simp: explicitEntries_def in_set_enumerate_eq)

lemma newMatchEntries_iff:
  "a \<in> set (newMatchEntries e ps)
     \<longleftrightarrow> (\<exists>k<length ps. a \<in> set (newMatchEntry e (explicitEntries e ps) (k, ps ! k)))"
  by (auto simp: newMatchEntries_def in_set_enumerate_eq)

lemma explicitEntry_iff:
  "a \<in> set (explicitEntry e (j, p))
     \<longleftrightarrow> (\<exists>m. matchPath p = Some m \<and> collected e p
              \<and> a = \<lparr>spread = p, entryMatchPath = m, index = j, score = rankRoute m\<rparr>)"
  by (auto simp: explicitEntry_def split: option.splits)

lemma newMatchEntry_iff:
  "a \<in> set (newMatchEntry e mpp (k, p))
     \<longleftrightarrow> (insideMatchPath e mpp p
          \<and> a = \<lparr>spread = p\<lparr>matchPath := Some (path p)\<rparr>, entryMatchPath = path p,
                  index = k, score = rankRoute (path p)\<rparr>)"
  by (auto simp: newMatchEntry_def)

lemma explicit_index_iff:
  assumes "i < length ps"
  shows "(\<exists>a \<in> set (explicitEntries e ps). index a = i) \<longleftrightarrow> collected e (ps ! i)"
proof
  assume "\<exists>a \<in> set (explicitEntries e ps). index a = i"
  then obtain a j where "j < length ps" "a \<in> set (explicitEntry e (j, ps ! j))" "index a = i"
    by (auto simp: explicitEntries_iff)
  then show "collected e (ps ! i)"
    by (auto simp: explicitEntry_iff)
next
  assume c: "collected e (ps ! i)"
  then obtain m where m: "matchPath (ps ! i) = Some m"
    using collected_truthy truthy_Some by blast
  let ?a = "\<lparr>spread = ps ! i, entryMatchPath = m, index = i, score = rankRoute m\<rparr>"
  from c m have "?a \<in> set (explicitEntry e (i, ps ! i))"
    by (simp add: explicitEntry_iff)
  with assms have "?a \<in> set (explicitEntries e ps)"
    unfolding explicitEntries_iff by blast
  moreover have "index ?a = i"
    by simp
  ultimately show "\<exists>a \<in> set (explicitEntries e ps). index a = i"
    by (rule bexI [rotated])
qed

lemma no_entry_for_uncollected:
  assumes "i < length ps" and "truthy (matchPath (ps ! i))" and "\<not> collected e (ps ! i)"
    and "a \<in> set (explicitEntries e ps @ newMatchEntries e ps)"
  shows "index a \<noteq> i"
proof
  assume i: "index a = i"
  from assms(4) consider "a \<in> set (explicitEntries e ps)" | "a \<in> set (newMatchEntries e ps)"
    by auto
  then show False
  proof cases
    case 1
    with i assms(1) have "collected e (ps ! i)"
      using explicit_index_iff [OF assms(1), of e] by blast
    with assms(3) show False by simp
  next
    case 2
    then obtain k where "k < length ps"
      "a \<in> set (newMatchEntry e (explicitEntries e ps) (k, ps ! k))"
      by (auto simp: newMatchEntries_iff)
    with i have "insideMatchPath e (explicitEntries e ps) (ps ! i)"
      by (auto simp: newMatchEntry_iff)
    with assms(2) show False
      by (simp add: insideMatchPath_def)
  qed
qed

lemma explicitEntries_empty:
  assumes "\<forall>p \<in> set ps. \<not> collected e p"
  shows "explicitEntries e ps = []"
proof (rule ccontr)
  assume "explicitEntries e ps \<noteq> []"
  then obtain a where "a \<in> set (explicitEntries e ps)"
    by (cases "explicitEntries e ps") auto
  then obtain j where j: "j < length ps" "a \<in> set (explicitEntry e (j, ps ! j))"
    by (auto simp: explicitEntries_iff)
  then have "collected e (ps ! j)"
    by (auto simp: explicitEntry_iff)
  with assms j(1) show False
    by simp
qed

lemma newMatchEntries_empty:
  assumes "explicitEntries e ps = []"
  shows "newMatchEntries e ps = []"
  using assms by (simp add: newMatchEntries_def newMatchEntry_Nil)

text \<open>
  C10: under the compile flag 4 the first loop pushes an entry for a page exactly when
  its \<^verbatim>\<open>matchPath\<close> is truthy and its mode is SSG; a page with a truthy \<^verbatim>\<open>matchPath\<close>
  and another mode has no entry at all among the entries that are sorted, and when
  every page with a \<^verbatim>\<open>matchPath\<close> is of this kind the result is empty.
\<close>

theorem explicit_entries_SSG_only:
  assumes "GATSBY_MAJOR e = js ''4''"
  shows "\<exists>mpp all.
           explicitMatchPathPages e ps = Inr mpp \<and> allMatchPathPages e ps = Inr all
           \<and> (\<forall>i<length ps.
                 (\<exists>a \<in> set mpp. index a = i)
                   \<longleftrightarrow> truthy (matchPath (ps ! i)) \<and> getPageMode e (ps ! i) = SSG)
           \<and> (\<forall>i<length ps.
                 truthy (matchPath (ps ! i)) \<and> getPageMode e (ps ! i) \<noteq> SSG
                   \<longrightarrow> (\<forall>a \<in> set all. index a \<noteq> i))
           \<and> ((\<forall>p \<in> set ps. truthy (matchPath p) \<longrightarrow> getPageMode e p \<noteq> SSG)
                 \<longrightarrow> getMatchPaths e ps = Inr [])"
proof (intro exI conjI)
  have c4: "collected e p \<longleftrightarrow> truthy (matchPath p) \<and> getPageMode e p = SSG" for p
    using assms by (simp add: collected_def)
  show "explicitMatchPathPages e ps = Inr (explicitEntries e ps)"
    by (rule explicitMatchPathPages_closed)
  show "allMatchPathPages e ps = Inr (explicitEntries e ps @ newMatchEntries e ps)"
    by (rule allMatchPathPages_closed)
  show "\<forall>i<length ps.
          (\<exists>a \<in> set (explicitEntries e ps). index a = i)
            \<longleftrightarrow> truthy (matchPath (ps ! i)) \<and> getPageMode e (ps ! i) = SSG"
    by (simp add: explicit_index_iff c4)
  show "\<forall>i<length ps.
          truthy (matchPath (ps ! i)) \<and> getPageMode e (ps ! i) \<noteq> SSG
            \<longrightarrow> (\<forall>a \<in> set (explicitEntries e ps @ newMatchEntries e ps). index a \<noteq> i)"
  proof (intro allI impI ballI)
    fix i a
    assume "i < length ps" "truthy (matchPath (ps ! i)) \<and> getPageMode e (ps ! i) \<noteq> SSG"
      "a \<in> set (explicitEntries e ps @ newMatchEntries e ps)"
    then show "index a \<noteq> i"
      using no_entry_for_uncollected [of i ps e a] by (simp add: c4)
  qed
  show "(\<forall>p \<in> set ps. truthy (matchPath p) \<longrightarrow> getPageMode e p \<noteq> SSG)
          \<longrightarrow> getMatchPaths e ps = Inr []"
  proof
    assume "\<forall>p \<in> set ps. truthy (matchPath p) \<longrightarrow> getPageMode e p \<noteq> SSG"
    then have "\<forall>p \<in> set ps. \<not> collected e p"
      by (simp add: c4)
    then have "explicitEntries e ps = []"
      by (rule explicitEntries_empty)
    then show "getMatchPaths e ps = Inr []"
      by (simp add: getMatchPaths_closed newMatchEntries_empty sortWith_def)
  qed
qed

theorem explicit_entries_SSG_only_witness:
  "GATSBY_MAJOR v4Env = js ''4''
   \<and> truthy (matchPath (blogPages ! 0)) \<and> getPageMode v4Env (blogPages ! 0) = DSG
   \<and> explicitMatchPathPages v4Env blogPages
       = Inr [\<lparr>spread = mkPage ''/blog/*'' (Some ''/blog/*'') ''Blog.js'' ''blog'',
               entryMatchPath = js ''/blog/*'', index = 2, score = 6\<rparr>]
   \<and> (\<exists>mpp all.
         explicitMatchPathPages v4Env blogPages = Inr mpp
         \<and> allMatchPathPages v4Env blogPages = Inr all
         \<and> (\<forall>i<length blogPages.
               (\<exists>a \<in> set mpp. index a = i)
                 \<longleftrightarrow> truthy (matchPath (blogPages ! i))
                      \<and> getPageMode v4Env (blogPages ! i) = SSG)
         \<and> (\<forall>i<length blogPages.
               truthy (matchPath (blogPages ! i)) \<and> getPageMode v4Env (blogPages ! i) \<noteq> SSG
                 \<longrightarrow> (\<forall>a \<in> set all. index a \<noteq> i))
         \<and> ((\<forall>p \<in> set blogPages. truthy (matchPath p) \<longrightarrow> getPageMode v4Env p \<noteq> SSG)
               \<longrightarrow> getMatchPaths v4Env blogPages = Inr []))"
proof -
  have h: "GATSBY_MAJOR v4Env = js ''4''"
    by (simp add: v4Env_def)
  have p0: "truthy (matchPath (blogPages ! 0))" "getPageMode v4Env (blogPages ! 0) = DSG"
    by (simp_all add: example_eval truthy_def js_def)
  have val: "explicitMatchPathPages v4Env blogPages
       = Inr [\<lparr>spread = mkPage ''/blog/*'' (Some ''/blog/*'') ''Blog.js'' ''blog'',
               entryMatchPath = js ''/blog/*'', index = 2, score = 6\<rparr>]"
    by (simp add: explicitMatchPathPages_closed explicitEntries_def explicitEntry_def
        collected_def truthy_def example_eval rankRoute_sum segmentScore_def segmentize_eval
        js_chars)
  from explicit_entries_SSG_only [OF h, of blogPages] h p0 val show ?thesis
    by (intro conjI)
qed

section \<open>Properties of the writes\<close>

lemma getMatchPaths_total: "getMatchPaths e ps = Inr (matchPathsOf e ps)"
  by (simp add: getMatchPaths_closed matchPathsOf_def)

lemma lastHash_emit [simp]: "lastHash (emit ev w) = lastHash w"
  by (simp add: emit_def)

lemma effects_emit [simp]: "effects (emit ev w) = effects w @ [ev]"
  by (simp add: emit_def)

lemma settle_lastHash: "lastHash (snd (settle e pr w)) = lastHash w"
  by (cases pr) (simp add: settle_def Let_def)

lemma settle_effects: "effects (snd (settle e pr w)) = effects w @ settleEffects e pr"
  by (cases pr) (simp add: settle_def settleEffects_def Let_def)

lemma settle_result:
  "fst (settle e (tmp, destination, d) w) =
     (if writeFileFails e tmp then Inl (IOError tmp)
      else if moveFails e tmp destination then Inl (IOError destination)
      else Inr ())"
  by (simp add: settle_def Let_def)

lemma promiseAll_lastHash: "lastHash (snd (promiseAll e prs w)) = lastHash w"
proof (induction prs arbitrary: w)
  case Nil
  show ?case by simp
next
  case (Cons pr prs)
  obtain r w' where s: "settle e pr w = (r, w')" by (cases "settle e pr w")
  obtain rs w'' where p: "promiseAll e prs w' = (rs, w'')" by (cases "promiseAll e prs w'")
  have "lastHash w' = lastHash w"
    using settle_lastHash [of e pr w] s by simp
  moreover have "lastHash w'' = lastHash w'"
    using Cons.IH [of w'] p by simp
  ultimately show ?case
    using s p by simp
qed

lemma promiseAll_effects:
  "effects (snd (promiseAll e prs w)) = effects w @ concat (map (settleEffects e) prs)"
proof (induction prs arbitrary: w)
  case Nil
  show ?case by simp
next
  case (Cons pr prs)
  obtain r w' where s: "settle e pr w = (r, w')" by (cases "settle e pr w")
  obtain rs w'' where p: "promiseAll e prs w' = (rs, w'')" by (cases "promiseAll e prs w'")
  have "effects w' = effects w @ settleEffects e pr"
    using settle_effects [of e pr w] s by simp
  moreover have "effects w'' = effects w' @ concat (map (settleEffects e) prs)"
    using Cons.IH [of w'] p by simp
  ultimately show ?case
    using s p by simp
qed

lemma settle_rejected:
  "(\<exists>p. fst (settle e pr w) = Inl (IOError p)) \<longleftrightarrow> rejected e pr"
  "fst (settle e pr w) = Inr () \<longleftrightarrow> \<not> rejected e pr"
  by (cases pr; simp add: settle_def rejected_def Let_def)+

lemma promiseAll_result:
  "(if list_ex (rejected e) prs then \<exists>p. fst (promiseAll e prs w) = Inl (IOError p)
    else fst (promiseAll e prs w) = Inr ())"
proof (induction prs arbitrary: w)
  case Nil
  show ?case by simp
next
  case (Cons pr prs)
  obtain r w' where s: "settle e pr w = (r, w')" by (cases "settle e pr w")
  obtain rs w'' where p: "promiseAll e prs w' = (rs, w'')" by (cases "promiseAll e prs w'")
  show ?case
  proof (cases "rejected e pr")
    case True
    then obtain q where "r = Inl (IOError q)"
      using settle_rejected(1) [of e pr w] s by auto
    with True s p show ?thesis by simp
  next
    case False
    then have "r = Inr ()"
      using settle_rejected(2) [of e pr w] s by simp
    with False s p Cons.IH [of w'] show ?thesis by (auto split: if_splits)
  qed
qed

lemma writeAndMove_eq:
  "writeAndMove e dir v file d w =
     ((joinPath e [dir, js ''.cache'', file] @ js ''.''
         @ Date_now e (joinPath e [dir, js ''.cache'', file]),
       joinPath e [dir, js ''.cache'', file], d),
      emit (WriteModule v d) w)"
  by (simp add: writeAndMove_def Let_def)

lemma rejected_pendingFor: "rejected e (pendingFor e st file d) = writeFails e st file"
  by (simp add: rejected_def pendingFor_def writeFails_def Let_def)

lemma writeFiles_closed:
  "writeFiles e st mps cs cleaned w =
     (case promiseAll e (pendingWrites e st mps cs)
             (w\<lparr>effects := effects w @ moduleEffects e mps cs cleaned\<rparr>) of
        (Inl err, w5) \<Rightarrow> (Inl err, w5)
      | (Inr u, w5) \<Rightarrow> (Inr True, w5))"
  by (simp add: writeFiles_def writeAndMove_eq pendingWrites_def pendingFor_def
      moduleEffects_def emit_def Let_def)

lemma list_ex_pendingWrites:
  "list_ex (rejected e) (pendingWrites e st mps cs) = list_ex (writeFails e st) artifactFiles"
  by (simp add: pendingWrites_def artifactFiles_def rejected_pendingFor)

lemma writeFiles_lastHash: "lastHash (snd (writeFiles e st mps cs cleaned w)) = lastHash w"
proof -
  let ?w = "w\<lparr>effects := effects w @ moduleEffects e mps cs cleaned\<rparr>"
  obtain r w5 where p: "promiseAll e (pendingWrites e st mps cs) ?w = (r, w5)"
    by (cases "promiseAll e (pendingWrites e st mps cs) ?w")
  have "lastHash w5 = lastHash ?w"
    using promiseAll_lastHash [of e "pendingWrites e st mps cs" ?w] p by simp
  then show ?thesis
    using p by (cases r) (simp_all add: writeFiles_closed)
qed

lemma writeFiles_effects:
  "effects (snd (writeFiles e st mps cs cleaned w))
     = effects w @ moduleEffects e mps cs cleaned
       @ concat (map (settleEffects e) (pendingWrites e st mps cs))"
proof -
  let ?w = "w\<lparr>effects := effects w @ moduleEffects e mps cs cleaned\<rparr>"
  obtain r w5 where p: "promiseAll e (pendingWrites e st mps cs) ?w = (r, w5)"
    by (cases "promiseAll e (pendingWrites e st mps cs) ?w")
  have "effects w5 = effects ?w @ concat (map (settleEffects e) (pendingWrites e st mps cs))"
    using promiseAll_effects [of e "pendingWrites e st mps cs" ?w] p by simp
  then show ?thesis
    using p by (cases r) (simp_all add: writeFiles_closed)
qed

lemma writeFiles_result:
  "(if list_ex (writeFails e st) artifactFiles
    then \<exists>p. fst (writeFiles e st mps cs cleaned w) = Inl (IOError p)
    else fst (writeFiles e st mps cs cleaned w) = Inr True)"
proof -
  let ?w = "w\<lparr>effects := effects w @ moduleEffects e mps cs cleaned\<rparr>"
  obtain r w5 where p: "promiseAll e (pendingWrites e st mps cs) ?w = (r, w5)"
    by (cases "promiseAll e (pendingWrites e st mps cs) ?w")
  from promiseAll_result [of e "pendingWrites e st mps cs" ?w] p
  show ?thesis
    unfolding list_ex_pendingWrites
    by (cases r) (auto simp: writeFiles_closed split: if_splits)
qed

lemma writeFiles_not_False: "fst (writeFiles e st mps cs cleaned w) \<noteq> Inr False"
  using writeFiles_result [of e st mps cs cleaned w] by (auto split: if_splits)

lemma newHash_total:
  "newHash e st =
     Inr (createHash e (matchPathsOf e (pages st)) (getComponents (pages st))
            (cleanedSSRVisitedPageComponents e st (getComponents (pages st))))"
  by (simp add: newHash_def getMatchPaths_total Let_def)

lemma writeAll_unchanged:
  assumes "newHash e st = Inr h" and "lastHash w = Some h"
  shows "writeAll e st w = (Inr False, w)"
  using assms by (auto simp: newHash_total writeAll_def getMatchPaths_total Let_def)

lemma writeAll_changed:
  assumes "newHash e st = Inr h" and "lastHash w \<noteq> Some h"
  shows "writeAll e st w =
           writeFiles e st (matchPathsOf e (pages st)) (getComponents (pages st))
             (cleanedSSRVisitedPageComponents e st (getComponents (pages st)))
             (w\<lparr>lastHash := Some h\<rparr>)"
  using assms by (auto simp: newHash_total writeAll_def getMatchPaths_total Let_def)

lemma writeAll_lastHash:
  assumes "newHash e st = Inr h"
  shows "lastHash (snd (writeAll e st w)) = Some h"
proof (cases "lastHash w = Some h")
  case True
  with assms show ?thesis
    by (simp add: writeAll_unchanged)
next
  case False
  with assms show ?thesis
    by (simp add: writeAll_changed writeFiles_lastHash)
qed

lemma writeAll_result:
  assumes "newHash e st = Inr h" and "lastHash w \<noteq> Some h"
  shows "(if list_ex (writeFails e st) artifactFiles
          then \<exists>p. fst (writeAll e st w) = Inl (IOError p)
          else fst (writeAll e st w) = Inr True)"
  unfolding writeAll_changed [OF assms] by (rule writeFiles_result)

lemma writeAll_effects:
  assumes "newHash e st = Inr h" and "lastHash w \<noteq> Some h"
  shows "effects (snd (writeAll e st w))
           = effects w
             @ moduleEffects e (matchPathsOf e (pages st)) (getComponents (pages st))
                 (cleanedSSRVisitedPageComponents e st (getComponents (pages st)))
             @ concat (map (settleEffects e)
                 (pendingWrites e st (matchPathsOf e (pages st)) (getComponents (pages st))))"
  unfolding writeAll_changed [OF assms] by (simp add: writeFiles_effects)

lemma moduleEffects_not_Nil: "moduleEffects e mps cs cleaned \<noteq> []"
  by (simp add: moduleEffects_def)

text \<open>
  C6: a second call of \<open>writeAll\<close> for the same state, right after a first one, returns
  \<^verbatim>\<open>false\<close> and leaves the world as it was, so that it writes nothing; and
  \<open>writeAll\<close> returns \<^verbatim>\<open>false\<close> exactly when the hash it computes is \<^verbatim>\<open>lastHash\<close>:
  then nothing is written, and otherwise something is.
\<close>

theorem writeAll_change_suppression:
  "\<exists>h. newHash e st = Inr h
     \<and> writeAll e st (snd (writeAll e st w)) = (Inr False, snd (writeAll e st w))
     \<and> (fst (writeAll e st w) = Inr False \<longleftrightarrow> lastHash w = Some h)
     \<and> (lastHash w = Some h \<longrightarrow> writeAll e st w = (Inr False, w))
     \<and> (lastHash w \<noteq> Some h \<longrightarrow> effects (snd (writeAll e st w)) \<noteq> effects w)"
proof -
  obtain h where h: "newHash e st = Inr h"
    by (simp add: newHash_total)
  have second: "writeAll e st (snd (writeAll e st w)) = (Inr False, snd (writeAll e st w))"
    using h writeAll_lastHash [OF h] by (rule writeAll_unchanged)
  have same: "writeAll e st w = (Inr False, w)" if "lastHash w = Some h"
    using h that by (rule writeAll_unchanged)
  have other: "fst (writeAll e st w) \<noteq> Inr False" if "lastHash w \<noteq> Some h"
    unfolding writeAll_changed [OF h that] by (rule writeFiles_not_False)
  have grows: "effects (snd (writeAll e st w)) \<noteq> effects w" if "lastHash w \<noteq> Some h"
    unfolding writeAll_effects [OF h that]
    using moduleEffects_not_Nil [of e "matchPathsOf e (pages st)" "getComponents (pages st)"
        "cleanedSSRVisitedPageComponents e st (getComponents (pages st))"]
    by simp
  have iff: "fst (writeAll e st w) = Inr False \<longleftrightarrow> lastHash w = Some h"
    using same other by (cases "lastHash w = Some h") simp_all
  from h second iff same grows show ?thesis
    by (intro exI [where x = h] conjI impI)
qed

lemma homeState_hash: "newHash refEnv homeState = Inr (js ''|,A,A,B,B,|'')"
  by (simp add: newHash_total matchPathsOf_def explicitEntries_def newMatchEntries_def
      explicitEntry_def newMatchEntry_def insideMatchPath_def collected_def truthy_def
      sortWith_def getComponents_def orderBy_def uniqBy_def pickComponentFields_def
      cleanedSSRVisitedPageComponents_def createHash_def listStrings_def homeState_def
      mkPage_def refEnv_def js_def)

theorem writeAll_change_suppression_witness:
  "newHash refEnv homeState = Inr (js ''|,A,A,B,B,|'')
   \<and> fst (writeAll refEnv homeState emptyWorld) = Inr True
   \<and> lastHash afterHome = Some (js ''|,A,A,B,B,|'')
   \<and> writeAll refEnv homeState afterHome = (Inr False, afterHome)"
proof -
  from writeAll_change_suppression [of refEnv homeState emptyWorld] homeState_hash
  have a: "writeAll refEnv homeState afterHome = (Inr False, afterHome)"
    by (simp add: afterHome_def)
  from writeAll_change_suppression [of refEnv homeState afterHome] homeState_hash a
  have b: "lastHash afterHome = Some (js ''|,A,A,B,B,|'')"
    by simp
  have ne: "lastHash emptyWorld \<noteq> Some (js ''|,A,A,B,B,|'')"
    by (simp add: emptyWorld_def)
  have "\<not> list_ex (writeFails refEnv homeState) artifactFiles"
    by (simp add: writeFails_def artifactFiles_def refEnv_def)
  with writeAll_result [OF homeState_hash ne]
  have c: "fst (writeAll refEnv homeState emptyWorld) = Inr True"
    by simp
  from homeState_hash a b c show ?thesis
    by (intro conjI)
qed


lemma newHash_cong:
  assumes "GATSBY_MAJOR e' = GATSBY_MAJOR e"
    and "GATSBY_EXPERIMENTAL_DEV_SSR e' = GATSBY_EXPERIMENTAL_DEV_SSR e"
    and "getPageMode e' = getPageMode e" and "match e' = match e"
    and "localeCompare e' = localeCompare e" and "md5 e' = md5 e"
    and "JSON_stringify e' = JSON_stringify e"
  shows "newHash e' st = newHash e st"
proof -
  have c: "collected e' = collected e"
    by (rule ext) (simp add: collected_def assms)
  have x: "explicitEntry e' = explicitEntry e"
    by (rule ext) (simp add: explicitEntry_def c split: prod.splits option.splits)
  have xs: "explicitEntries e' = explicitEntries e"
    by (rule ext) (simp add: explicitEntries_def x)
  have i: "insideMatchPath e' = insideMatchPath e"
    by (rule ext)+ (simp add: insideMatchPath_def assms)
  have n: "newMatchEntry e' = newMatchEntry e"
    by (rule ext)+ (simp add: newMatchEntry_def i split: prod.splits)
  have ns: "newMatchEntries e' = newMatchEntries e"
    by (rule ext) (simp add: newMatchEntries_def n xs)
  have cmp: "compareEntries e' = compareEntries e"
    by (rule ext)+ (simp add: compareEntries_def assms)
  show ?thesis
    by (simp add: newHash_total matchPathsOf_def xs ns cmp cleanedSSRVisitedPageComponents_def
        createHash_def assms)
qed

lemma newHash_brokenDisk: "newHash brokenDiskEnv st = newHash refEnv st"
  by (rule newHash_cong) (simp_all add: brokenDiskEnv_def)

lemma siteState_hash:
  "newHash refEnv siteState
     = Inr (js ''/app/settings,/app/settings,/app/*,/app/*,|,App.js,app,Settings.js,settings,|'')"
  by (simp add: newHash_total matchPathsOf_def explicitEntries_def newMatchEntries_def
      explicitEntry_def newMatchEntry_def insideMatchPath_def collected_def truthy_def
      sortWith_def compareEntries_def toMatchPath_def getComponents_def orderBy_def uniqBy_def
      pickComponentFields_def cleanedSSRVisitedPageComponents_def createHash_def
      listStrings_def siteState_def example_eval segmentize_eval js_chars
      isSplat_def rankRoute_sum segmentScore_def)

text \<open>
  C1 (as stated): after a call of \<open>writeAll\<close> in which a write fails, \<^verbatim>\<open>lastHash\<close> is
  still the hash of the last emission that succeeded, and the next call for the same
  state writes again. Here a first call succeeds; the second, for another state, is
  rejected because a file cannot be written; \<^verbatim>\<open>lastHash\<close> has changed all the same,
  and a third call for the state of the second, on a disk that works again, returns
  \<^verbatim>\<open>false\<close> and writes nothing.
\<close>

theorem writeAll_failed_write_counterexample:
  "fst (writeAll refEnv homeState emptyWorld) = Inr True
   \<and> (\<exists>p. fst (writeAll brokenDiskEnv siteState afterHome) = Inl (IOError p))
   \<and> lastHash afterFailure \<noteq> lastHash afterHome
   \<and> writeAll refEnv siteState afterFailure = (Inr False, afterFailure)"
proof -
  obtain h where h': "newHash refEnv siteState = Inr h"
    and hne: "h \<noteq> js ''|,A,A,B,B,|''"
    using siteState_hash by (simp add: js_def)
  then have h: "newHash brokenDiskEnv siteState = Inr h"
    by (simp add: newHash_brokenDisk)
  have ne: "lastHash emptyWorld \<noteq> Some (js ''|,A,A,B,B,|'')"
    by (simp add: emptyWorld_def)
  have "\<not> list_ex (writeFails refEnv homeState) artifactFiles"
    by (simp add: writeFails_def artifactFiles_def refEnv_def)
  with writeAll_result [OF homeState_hash ne]
  have one: "fst (writeAll refEnv homeState emptyWorld) = Inr True"
    by simp
  have home: "lastHash afterHome = Some (js ''|,A,A,B,B,|'')"
    unfolding afterHome_def by (rule writeAll_lastHash [OF homeState_hash])
  with hne have changed: "lastHash afterHome \<noteq> Some h"
    by simp
  have "list_ex (writeFails brokenDiskEnv siteState) artifactFiles"
    by (simp add: writeFails_def artifactFiles_def brokenDiskEnv_def refEnv_def siteState_def
        js_def)
  with writeAll_result [OF h changed]
  have two: "\<exists>p. fst (writeAll brokenDiskEnv siteState afterHome) = Inl (IOError p)"
    by simp
  have failure: "lastHash afterFailure = Some h"
    unfolding afterFailure_def by (rule writeAll_lastHash [OF h])
  with changed have three: "lastHash afterFailure \<noteq> lastHash afterHome"
    by simp
  have four: "writeAll refEnv siteState afterFailure = (Inr False, afterFailure)"
    using h' failure by (rule writeAll_unchanged)
  from one two three four show ?thesis
    by (intro conjI)
qed

text \<open>
  C1 (amended): \<^verbatim>\<open>lastHash\<close> is set to the new hash before the files are written and is
  not set back: after every call it is the hash of the state of this call. When the
  hash has changed and one of the three chains fails, the call is rejected with the
  error; when none fails it returns \<^verbatim>\<open>true\<close>. In both cases a next call for the same
  state, in any environment that gives the same hash, returns \<^verbatim>\<open>false\<close> and leaves
  the world as it is.
\<close>

theorem writeAll_lastHash_before_writes:
  "\<exists>h. newHash e st = Inr h
     \<and> lastHash (snd (writeAll e st w)) = Some h
     \<and> (lastHash w \<noteq> Some h \<and> list_ex (writeFails e st) artifactFiles
          \<longrightarrow> (\<exists>p. fst (writeAll e st w) = Inl (IOError p)))
     \<and> (lastHash w \<noteq> Some h \<and> \<not> list_ex (writeFails e st) artifactFiles
          \<longrightarrow> fst (writeAll e st w) = Inr True)
     \<and> (\<forall>e'. newHash e' st = Inr h
          \<longrightarrow> writeAll e' st (snd (writeAll e st w)) = (Inr False, snd (writeAll e st w)))"
proof -
  obtain h where h: "newHash e st = Inr h"
    by (simp add: newHash_total)
  have last: "lastHash (snd (writeAll e st w)) = Some h"
    by (rule writeAll_lastHash [OF h])
  have fails: "\<exists>p. fst (writeAll e st w) = Inl (IOError p)"
    if "lastHash w \<noteq> Some h \<and> list_ex (writeFails e st) artifactFiles"
    using writeAll_result [OF h, of w] that by simp
  have succeeds: "fst (writeAll e st w) = Inr True"
    if "lastHash w \<noteq> Some h \<and> \<not> list_ex (writeFails e st) artifactFiles"
    using writeAll_result [OF h, of w] that by simp
  have skip: "writeAll e' st (snd (writeAll e st w)) = (Inr False, snd (writeAll e st w))"
    if "newHash e' st = Inr h" for e' :: "'a env"
    using that last by (rule writeAll_unchanged)
  from fails have fails': "lastHash w \<noteq> Some h \<and> list_ex (writeFails e st) artifactFiles
          \<longrightarrow> (\<exists>p. fst (writeAll e st w) = Inl (IOError p))"
    by (rule impI)
  from succeeds have succeeds': "lastHash w \<noteq> Some h \<and> \<not> list_ex (writeFails e st) artifactFiles
          \<longrightarrow> fst (writeAll e st w) = Inr True"
    by (rule impI)
  from skip have skip': "\<forall>e'. newHash e' st = Inr h
          \<longrightarrow> writeAll e' st (snd (writeAll e st w)) = (Inr False, snd (writeAll e st w))"
    by (intro allI impI)
  from h last fails' succeeds' skip' have
    "newHash e st = Inr h
     \<and> lastHash (snd (writeAll e st w)) = Some h
     \<and> (lastHash w \<noteq> Some h \<and> list_ex (writeFails e st) artifactFiles
          \<longrightarrow> (\<exists>p. fst (writeAll e st w) = Inl (IOError p)))
     \<and> (lastHash w \<noteq> Some h \<and> \<not> list_ex (writeFails e st) artifactFiles
          \<longrightarrow> fst (writeAll e st w) = Inr True)
     \<and> (\<forall>e'. newHash e' st = Inr h
          \<longrightarrow> writeAll e' st (snd (writeAll e st w)) = (Inr False, snd (writeAll e st w)))"
    by (intro conjI)
  then show ?thesis
    by (rule exI)
qed

theorem writeAll_lastHash_before_writes_witness:
  "lastHash afterHome \<noteq> lastHash afterFailure
   \<and> list_ex (writeFails brokenDiskEnv siteState) artifactFiles
   \<and> (\<exists>p. fst (writeAll brokenDiskEnv siteState afterHome) = Inl (IOError p))
   \<and> writeAll refEnv siteState afterFailure = (Inr False, afterFailure)"
proof -
  from writeAll_lastHash_before_writes [of brokenDiskEnv siteState afterHome]
  obtain h where h: "newHash brokenDiskEnv siteState = Inr h"
    and last: "lastHash afterFailure = Some h"
    and fails: "lastHash afterHome \<noteq> Some h
                  \<and> list_ex (writeFails brokenDiskEnv siteState) artifactFiles
                \<longrightarrow> (\<exists>p. fst (writeAll brokenDiskEnv siteState afterHome) = Inl (IOError p))"
    and skip: "\<forall>e'. newHash e' siteState = Inr h
                \<longrightarrow> writeAll e' siteState afterFailure = (Inr False, afterFailure)"
    unfolding afterFailure_def by blast
  from h have h': "newHash refEnv siteState = Inr h"
    by (simp add: newHash_brokenDisk)
  with siteState_hash have hne: "h \<noteq> js ''|,A,A,B,B,|''"
    by (simp add: js_def)
  have "lastHash afterHome = Some (js ''|,A,A,B,B,|'')"
    unfolding afterHome_def by (rule writeAll_lastHash [OF homeState_hash])
  with hne have changed: "lastHash afterHome \<noteq> Some h"
    by simp
  have broken: "list_ex (writeFails brokenDiskEnv siteState) artifactFiles"
    by (simp add: writeFails_def artifactFiles_def brokenDiskEnv_def refEnv_def siteState_def
        js_def)
  from changed last have one: "lastHash afterHome \<noteq> lastHash afterFailure"
    by simp
  from fails changed broken
  have two: "\<exists>p. fst (writeAll brokenDiskEnv siteState afterHome) = Inl (IOError p)"
    by simp
  from skip h' have three: "writeAll refEnv siteState afterFailure = (Inr False, afterFailure)"
    by simp
  from one broken two three show ?thesis
    by (intro conjI)
qed


lemma cleaned_disabled:
  "\<not> truthy (GATSBY_EXPERIMENTAL_DEV_SSR e) \<Longrightarrow> cleanedSSRVisitedPageComponents e st cs = []"
  by (simp add: cleanedSSRVisitedPageComponents_def)

lemma cleaned_enabled:
  "truthy (GATSBY_EXPERIMENTAL_DEV_SSR e) \<Longrightarrow>
     cleanedSSRVisitedPageComponents e st cs
       = filter (\<lambda>c. componentChunkName c \<in> set (ssrVisitedPageComponents st)) cs"
  by (simp add: cleanedSSRVisitedPageComponents_def list_ex_iff)

lemma filtered_names:
  "map componentChunkName
     (filter (\<lambda>c. componentChunkName c \<in> V) (getComponents ps))
     = sorted_list_of_set (componentChunkName ` set ps \<inter> V)"
proof -
  let ?ys = "filter (\<lambda>n. n \<in> V) (map componentChunkName (getComponents ps))"
  have eq: "map componentChunkName (filter (\<lambda>c. componentChunkName c \<in> V) (getComponents ps))
              = ?ys"
    by (simp add: filter_map o_def)
  have "sorted ?ys"
    using getComponents_sorted [of ps] by (rule sorted_wrt_filter)
  moreover have "distinct ?ys"
    using getComponents_distinct [of ps] by (rule distinct_filter)
  ultimately have "sorted_list_of_set (set ?ys) = ?ys"
    by (rule sorted_list_of_set.idem_if_sorted_distinct)
  moreover have "set ?ys = componentChunkName ` set ps \<inter> V"
    using getComponents_names_set [of ps] by auto
  ultimately show ?thesis
    using eq by simp
qed

lemma settleEffects_no_module: "WriteModule v d \<notin> set (settleEffects e pr)"
  by (cases pr) (simp add: settleEffects_def)

lemma no_ssr_module:
  assumes "\<not> truthy (GATSBY_EXPERIMENTAL_DEV_SSR e)"
    and "WriteModule (js ''$virtual/ssr-sync-requires'') d \<in> set (effects (snd (writeAll e st w)))"
  shows "WriteModule (js ''$virtual/ssr-sync-requires'') d \<in> set (effects w)"
proof -
  obtain h where h: "newHash e st = Inr h"
    by (simp add: newHash_total)
  show ?thesis
  proof (cases "lastHash w = Some h")
    case True
    with assms(2) h show ?thesis
      by (simp add: writeAll_unchanged)
  next
    case False
    have "WriteModule (js ''$virtual/ssr-sync-requires'') d
            \<notin> set (moduleEffects e mps cs cleaned)" for mps cs cleaned
      using assms(1) by (simp add: moduleEffects_def js_def)
    with assms(2) show ?thesis
      unfolding writeAll_effects [OF h False] by (auto simp: settleEffects_no_module)
  qed
qed

lemma ssr_module_written:
  assumes "truthy (GATSBY_EXPERIMENTAL_DEV_SSR e)"
    and "newHash e st = Inr h" and "lastHash w \<noteq> Some h"
  shows "WriteModule (js ''$virtual/ssr-sync-requires'')
           (lazySyncRequires e
              (cleanedSSRVisitedPageComponents e st (getComponents (pages st))))
           \<in> set (effects (snd (writeAll e st w)))"
  unfolding writeAll_effects [OF assms(2,3)] using assms(1) by (simp add: moduleEffects_def)

text \<open>
  C8: when the server-rendering flag is not set, \<^verbatim>\<open>cleanedSSRVisitedPageComponents\<close> is
  empty and \<open>writeAll\<close> writes no module \<^verbatim>\<open>$virtual/ssr-sync-requires\<close>; when it is set,
  the list is the catalog filtered by membership of the chunk name in the visited set,
  its chunk names are the sorted intersection of the chunk names of the pages with the
  visited set, and a call that writes anything writes the module from this list.
\<close>

theorem ssr_manifest_input:
  "(\<not> truthy (GATSBY_EXPERIMENTAL_DEV_SSR e) \<longrightarrow>
      cleanedSSRVisitedPageComponents e st (getComponents (pages st)) = []
      \<and> (\<forall>d. WriteModule (js ''$virtual/ssr-sync-requires'') d
                 \<in> set (effects (snd (writeAll e st w)))
               \<longrightarrow> WriteModule (js ''$virtual/ssr-sync-requires'') d \<in> set (effects w)))
   \<and> (truthy (GATSBY_EXPERIMENTAL_DEV_SSR e) \<longrightarrow>
      cleanedSSRVisitedPageComponents e st (getComponents (pages st))
        = filter (\<lambda>c. componentChunkName c \<in> set (ssrVisitedPageComponents st))
            (getComponents (pages st))
      \<and> map componentChunkName
            (cleanedSSRVisitedPageComponents e st (getComponents (pages st)))
          = sorted_list_of_set
              (componentChunkName ` set (pages st) \<inter> set (ssrVisitedPageComponents st))
      \<and> (\<forall>h. newHash e st = Inr h \<and> lastHash w \<noteq> Some h \<longrightarrow>
            WriteModule (js ''$virtual/ssr-sync-requires'')
              (lazySyncRequires e
                 (cleanedSSRVisitedPageComponents e st (getComponents (pages st))))
              \<in> set (effects (snd (writeAll e st w)))))"
proof (intro conjI impI allI)
  assume off: "\<not> truthy (GATSBY_EXPERIMENTAL_DEV_SSR e)"
  then show "cleanedSSRVisitedPageComponents e st (getComponents (pages st)) = []"
    by (rule cleaned_disabled)
  fix d
  assume "WriteModule (js ''$virtual/ssr-sync-requires'') d
            \<in> set (effects (snd (writeAll e st w)))"
  with off show "WriteModule (js ''$virtual/ssr-sync-requires'') d \<in> set (effects w)"
    by (rule no_ssr_module)
next
  assume on: "truthy (GATSBY_EXPERIMENTAL_DEV_SSR e)"
  then show "cleanedSSRVisitedPageComponents e st (getComponents (pages st))
        = filter (\<lambda>c. componentChunkName c \<in> set (ssrVisitedPageComponents st))
            (getComponents (pages st))"
    by (rule cleaned_enabled)
  then show "map componentChunkName
            (cleanedSSRVisitedPageComponents e st (getComponents (pages st)))
          = sorted_list_of_set
              (componentChunkName ` set (pages st) \<inter> set (ssrVisitedPageComponents st))"
    by (simp add: filtered_names)
  fix h
  assume "newHash e st = Inr h \<and> lastHash w \<noteq> Some h"
  with on show "WriteModule (js ''$virtual/ssr-sync-requires'')
              (lazySyncRequires e
                 (cleanedSSRVisitedPageComponents e st (getComponents (pages st))))
              \<in> set (effects (snd (writeAll e st w)))"
    using ssr_module_written [of e st h w] by simp
qed

theorem ssr_manifest_input_witness:
  "truthy (GATSBY_EXPERIMENTAL_DEV_SSR ssrEnv)
   \<and> ssrVisitedPageComponents siteState = [js ''settings'', js ''gone'']
   \<and> cleanedSSRVisitedPageComponents ssrEnv siteState (getComponents (pages siteState))
       = [\<lparr>component = js ''Settings.js'', componentChunkName = js ''settings''\<rparr>]
   \<and> WriteModule (js ''$virtual/ssr-sync-requires'')
        (lazySyncRequires ssrEnv
           [\<lparr>component = js ''Settings.js'', componentChunkName = js ''settings''\<rparr>])
        \<in> set (effects (snd (writeAll ssrEnv siteState emptyWorld)))
   \<and> \<not> truthy (GATSBY_EXPERIMENTAL_DEV_SSR refEnv)
   \<and> cleanedSSRVisitedPageComponents refEnv siteState (getComponents (pages siteState)) = []
   \<and> (\<forall>d. WriteModule (js ''$virtual/ssr-sync-requires'') d
              \<notin> set (effects (snd (writeAll refEnv siteState emptyWorld))))"
proof -
  have on: "truthy (GATSBY_EXPERIMENTAL_DEV_SSR ssrEnv)"
    by (simp add: ssrEnv_def truthy_def js_def)
  have off: "\<not> truthy (GATSBY_EXPERIMENTAL_DEV_SSR refEnv)"
    by (simp add: refEnv_def truthy_def)
  have visited: "ssrVisitedPageComponents siteState = [js ''settings'', js ''gone'']"
    by (simp add: ssrVisitedPageComponents_def siteState_def)
  have comps: "getComponents (pages siteState)
                 = [\<lparr>component = js ''App.js'', componentChunkName = js ''app''\<rparr>,
                    \<lparr>component = js ''Settings.js'', componentChunkName = js ''settings''\<rparr>]"
    by (simp add: getComponents_def orderBy_def uniqBy_def pickComponentFields_def
        siteState_def appPages_def mkPage_def js_def)
  obtain h where h: "newHash ssrEnv siteState = Inr h"
    by (simp add: newHash_total)
  have ne: "lastHash emptyWorld \<noteq> Some h"
    by (simp add: emptyWorld_def)
  from ssr_manifest_input [of ssrEnv siteState emptyWorld] on h ne
  have a: "cleanedSSRVisitedPageComponents ssrEnv siteState (getComponents (pages siteState))
        = filter (\<lambda>c. componentChunkName c \<in> set (ssrVisitedPageComponents siteState))
            (getComponents (pages siteState))"
    and b: "WriteModule (js ''$virtual/ssr-sync-requires'')
              (lazySyncRequires ssrEnv
                 (cleanedSSRVisitedPageComponents ssrEnv siteState
                    (getComponents (pages siteState))))
              \<in> set (effects (snd (writeAll ssrEnv siteState emptyWorld)))"
    by blast+
  have c: "cleanedSSRVisitedPageComponents ssrEnv siteState (getComponents (pages siteState))
       = [\<lparr>component = js ''Settings.js'', componentChunkName = js ''settings''\<rparr>]"
    using a unfolding visited comps by (simp add: js_def)
  have b': "WriteModule (js ''$virtual/ssr-sync-requires'')
        (lazySyncRequires ssrEnv
           [\<lparr>component = js ''Settings.js'', componentChunkName = js ''settings''\<rparr>])
        \<in> set (effects (snd (writeAll ssrEnv siteState emptyWorld)))"
    using b unfolding c .
  from ssr_manifest_input [of refEnv siteState emptyWorld] off
  have d: "cleanedSSRVisitedPageComponents refEnv siteState (getComponents (pages siteState)) = []"
    and e: "\<forall>d. WriteModule (js ''$virtual/ssr-sync-requires'') d
                 \<in> set (effects (snd (writeAll refEnv siteState emptyWorld)))
               \<longrightarrow> WriteModule (js ''$virtual/ssr-sync-requires'') d \<in> set (effects emptyWorld)"
    by blast+
  from e have f: "\<forall>d. WriteModule (js ''$virtual/ssr-sync-requires'') d
              \<notin> set (effects (snd (writeAll refEnv siteState emptyWorld)))"
    by (auto simp: emptyWorld_def)
  from on visited c b' off d f show ?thesis
    by (intro conjI)
qed

end
